theory Spec2Isabelle
  imports Main "HOL-Library.Word" "HOL-Library.Sublist"
begin

section \<open>JavaScript strings\<close>

text \<open>
  A JavaScript string is a sequence of UTF-16 code units, and \<open>length\<close>, \<open>slice\<close>,
  \<open>indexOf\<close> all count code units. A code unit is a 16-bit word. \<open>js\<close> turns an
  ASCII literal into such a string.
\<close>

type_synonym jschar = "16 word"
type_synonym jsstring = "jschar list"

definition js :: "string \<Rightarrow> jsstring" where
  "js s = map of_char s"

text \<open>
  \<open>text.indexOf(needle, pos)\<close>: the least index \<open>k \<ge> min pos (length text)\<close> at which
  \<open>needle\<close> occurs, or \<open>-1\<close>, which is \<open>None\<close> here. \<open>indexOf_from needle i cs\<close> scans
  the rest \<open>cs\<close> of the text, \<open>i\<close> being the index of its first code unit.
\<close>

fun indexOf_from :: "jsstring \<Rightarrow> nat \<Rightarrow> jsstring \<Rightarrow> nat option" where
  "indexOf_from needle i [] = (if needle = [] then Some i else None)"
| "indexOf_from needle i (c # cs) =
     (if prefix needle (c # cs) then Some i else indexOf_from needle (Suc i) cs)"

definition indexOf :: "jsstring \<Rightarrow> jsstring \<Rightarrow> nat \<Rightarrow> nat option" where
  "indexOf text needle pos = indexOf_from needle (min pos (length text)) (drop pos text)"

text \<open>
  \<open>s.slice(a, b)\<close> and \<open>s.slice(a)\<close> for indices that are not negative: both are
  clamped to the length, and the result is empty when \<open>b \<le> a\<close>.
\<close>

definition slice :: "jsstring \<Rightarrow> nat \<Rightarrow> nat \<Rightarrow> jsstring" where
  "slice s a b = drop a (take b s)"

definition slice_from :: "jsstring \<Rightarrow> nat \<Rightarrow> jsstring" where
  "slice_from s a = drop a s"

text \<open>\<open>needle\<close> occurs in \<open>text\<close> at index \<open>k\<close>.\<close>

definition occurs_at :: "jsstring \<Rightarrow> jsstring \<Rightarrow> nat \<Rightarrow> bool" where
  "occurs_at needle text k \<longleftrightarrow> k \<le> length text \<and> prefix needle (drop k text)"

section \<open>Base embedded block management\<close>

definition FENCE_START :: jsstring where
  "FENCE_START = js ''```base''"

definition BEGIN_MARK :: jsstring where
  "BEGIN_MARK = js ''# BEGIN FILTERS (managed by obsidian-base-live-filter-plugin)''"

definition END_MARK :: jsstring where
  "END_MARK = js ''# END FILTERS''"

text \<open>
  \<open>BaseBlockInfo\<close>: the source's field \<open>end\<close> is \<open>endpos\<close> here, as \<open>end\<close> is a
  keyword.
\<close>

record BaseBlockInfo =
  start :: nat
  endpos :: nat
  filtersStart :: nat
  filtersEnd :: nat

definition findBaseBlock :: "jsstring \<Rightarrow> BaseBlockInfo option" where
  "findBaseBlock text =
     (case indexOf text FENCE_START 0 of
        None \<Rightarrow> None
      | Some fenceIdx \<Rightarrow>
          (case indexOf text (js ''\<newline>```'') (fenceIdx + length FENCE_START) of
             None \<Rightarrow> None
           | Some fenceEnd \<Rightarrow>
               (case indexOf text BEGIN_MARK fenceIdx of
                  None \<Rightarrow> None
                | Some beginIdx \<Rightarrow>
                    (case indexOf text END_MARK fenceIdx of
                       None \<Rightarrow> None
                     | Some endIdx \<Rightarrow>
                         if endIdx < beginIdx then None
                         else Some \<lparr>start = fenceIdx, endpos = fenceEnd + 4,
                                    filtersStart = beginIdx,
                                    filtersEnd = endIdx + length END_MARK\<rparr>))))"

text \<open>
  The vault: the text of every file, by path. \<open>app.vault.read\<close> of a file that is gone
  rejects, and so does the function that awaits it: the result is \<open>None\<close>.
  \<open>app.vault.modify\<close> replaces the whole text of one file.
\<close>

type_synonym path = string
type_synonym vault = "path \<Rightarrow> jsstring option"

text \<open>
  \<open>xs.join(sep)\<close>. The template of \<open>findOrInsertBaseBlock\<close> is its eight pieces
  joined by newlines.
\<close>

fun join :: "jsstring \<Rightarrow> jsstring list \<Rightarrow> jsstring" where
  "join sep [] = []"
| "join sep [x] = x"
| "join sep (x # y # ys) = x @ sep @ join sep (y # ys)"



text \<open>
  \<open>replaceFiltersInBaseBlock\<close>: \<open>replaceFilters_text\<close> is what it computes from the text
  it has just read (\<open>target\<close>, \<open>before\<close>, \<open>after\<close>, \<open>replacement\<close>, \<open>newText\<close>), and
  the function itself reads the file and writes that text back.
\<close>

definition replacement :: "jsstring \<Rightarrow> jsstring" where
  "replacement newFilters = BEGIN_MARK @ js ''\<newline>'' @ newFilters @ js ''\<newline>'' @ END_MARK"

definition replaceFilters_text :: "jsstring \<Rightarrow> BaseBlockInfo \<Rightarrow> jsstring \<Rightarrow> jsstring" where
  "replaceFilters_text text info newFilters =
     (let latest = findBaseBlock text;
          target = (case latest of Some l \<Rightarrow> l | None \<Rightarrow> info);
          before = slice text 0 (filtersStart target);
          after = slice_from text (filtersEnd target)
      in before @ replacement newFilters @ after)"

definition replaceFiltersInBaseBlock ::
  "vault \<Rightarrow> path \<Rightarrow> BaseBlockInfo \<Rightarrow> jsstring \<Rightarrow> vault option" where
  "replaceFiltersInBaseBlock v file info newFilters =
     (case v file of
        None \<Rightarrow> None
      | Some text \<Rightarrow> Some (v(file \<mapsto> replaceFilters_text text info newFilters)))"

section \<open>White space, trimming, splitting\<close>

text \<open>
  The code units that \<open>\s\<close> matches and \<open>trim\<close> strips: ECMAScript's WhiteSpace
  and LineTerminator (tab, LF, VT, FF, CR, space, NBSP, U+1680, U+2000 to U+200A, LS, PS,
  U+202F, U+205F, U+3000, U+FEFF). The line terminators are LF, CR, LS and PS: \<open>.\<close>
  matches every code unit but those, and with the flag \<open>m\<close> a line starts after one
  and ends before one.
\<close>

definition is_ws :: "jschar \<Rightarrow> bool" where
  "is_ws c \<longleftrightarrow>
     c = 0x09 \<or> c = 0x0A \<or> c = 0x0B \<or> c = 0x0C \<or> c = 0x0D \<or> c = 0x20 \<or> c = 0xA0 \<or>
     c = 0x1680 \<or> (0x2000 \<le> c \<and> c \<le> 0x200A) \<or> c = 0x2028 \<or> c = 0x2029 \<or>
     c = 0x202F \<or> c = 0x205F \<or> c = 0x3000 \<or> c = 0xFEFF"

definition is_lt :: "jschar \<Rightarrow> bool" where
  "is_lt c \<longleftrightarrow> c = 0x0A \<or> c = 0x0D \<or> c = 0x2028 \<or> c = 0x2029"

definition trim :: "jsstring \<Rightarrow> jsstring" where
  "trim s = rev (dropWhile is_ws (rev (dropWhile is_ws s)))"

text \<open>
  \<open>s.split(/\s+/)\<close>: the pieces between the maximal runs of white space, an empty
  piece before a leading run and after a trailing one. \<open>split_ws cur cs\<close> has read
  \<open>cur\<close> of the current piece and has \<open>cs\<close> before it.
\<close>

function split_ws :: "jsstring \<Rightarrow> jsstring \<Rightarrow> jsstring list" where
  "split_ws cur [] = [cur]"
| "split_ws cur (c # cs) =
     (if is_ws c then cur # split_ws [] (dropWhile is_ws cs) else split_ws (cur @ [c]) cs)"
  by pat_completeness auto
termination
  by (relation "measure (\<lambda>(cur, cs). length cs)")
    (auto simp: less_Suc_eq_le length_dropWhile_le)

definition startsWith_hash :: "jsstring \<Rightarrow> bool" where
  "startsWith_hash s = prefix (js ''#'') s"

text \<open>\<open>s.replace(/^#/, "")\<close>: one leading \<open>#\<close> goes.\<close>

definition strip_hash :: "jsstring \<Rightarrow> jsstring" where
  "strip_hash s = (case s of [] \<Rightarrow> [] | c # cs \<Rightarrow> if c = 0x23 then cs else c # cs)"

text \<open>
  A number in a template literal, for a number that is a natural number below
  \<open>10^21\<close> (a caret is an offset into the input): its decimal digits.
  \<open>parseInt(d, 10)\<close> on a string of decimal digits reads them back.
\<close>

definition digit_char :: "nat \<Rightarrow> jschar" where
  "digit_char d = of_nat (48 + d)"

function decimal :: "nat \<Rightarrow> jsstring" where
  "decimal n = (if n < 10 then [digit_char n] else decimal (n div 10) @ [digit_char (n mod 10)])"
  by pat_completeness auto
termination
  by (relation "measure id") auto

declare decimal.simps [simp del]

definition is_digit :: "jschar \<Rightarrow> bool" where
  "is_digit c \<longleftrightarrow> 0x30 \<le> c \<and> c \<le> 0x39"

definition parseInt :: "jsstring \<Rightarrow> nat" where
  "parseInt ds = foldl (\<lambda>n c. 10 * n + (unat c - 48)) 0 ds"

section \<open>Matchers\<close>

text \<open>
  \<open>toLowerCase\<close> is the platform's, with the whole of Unicode's case mapping behind
  it: the matchers take it as a parameter, and what is proved of them holds for every
  function in its place. \<open>limit\<close> is a count: the callers pass \<open>100\<close> and \<open>200\<close>, and
  the default is \<open>60\<close>.
\<close>

definition prefixMatch ::
  "(jsstring \<Rightarrow> jsstring) \<Rightarrow> jsstring list \<Rightarrow> jsstring \<Rightarrow> nat \<Rightarrow> jsstring list" where
  "prefixMatch toLowerCase all pre limit =
     (let p = toLowerCase (strip_hash pre)
      in if p = [] then []
         else take limit (filter (\<lambda>t. prefix p (toLowerCase t)) all))"

definition suffixMatch ::
  "(jsstring \<Rightarrow> jsstring) \<Rightarrow> jsstring list \<Rightarrow> jsstring \<Rightarrow> nat \<Rightarrow> jsstring list" where
  "suffixMatch toLowerCase all suf limit =
     (let s = toLowerCase (strip_hash suf)
      in if s = [] then []
         else take limit (filter (\<lambda>t. suffix s (toLowerCase t)) all))"

definition substringMatch ::
  "(jsstring \<Rightarrow> jsstring) \<Rightarrow> jsstring list \<Rightarrow> jsstring \<Rightarrow> nat \<Rightarrow> jsstring list" where
  "substringMatch toLowerCase all part limit =
     (let s = toLowerCase (strip_hash part)
      in if s = [] then []
         else take limit (filter (\<lambda>t. sublist s (toLowerCase t)) all))"

text \<open>
  \<open>toLowerCase\<close> on the letters \<open>A\<close> to \<open>Z\<close>, every other code unit kept: what the
  platform's function does on ASCII strings, for the examples.
\<close>

definition ascii_lower :: "jsstring \<Rightarrow> jsstring" where
  "ascii_lower s = map (\<lambda>c. if 0x41 \<le> c \<and> c \<le> 0x5A then c + 0x20 else c) s"

section \<open>Encoding and decoding the state\<close>

text \<open>
  \<open>encodeURIComponent\<close>: the unreserved code units (letters, digits and
  \<open>- _ . ! ~ * ' ( )\<close>) stay, every other code point is written as the bytes of its
  UTF-8 form, each as \<open>%\<close> and two upper-case hexadecimal digits. A surrogate with no
  partner throws URIError: \<open>None\<close>.
\<close>

definition unreserved :: "jschar \<Rightarrow> bool" where
  "unreserved c \<longleftrightarrow>
     (0x41 \<le> c \<and> c \<le> 0x5A) \<or> (0x61 \<le> c \<and> c \<le> 0x7A) \<or> (0x30 \<le> c \<and> c \<le> 0x39) \<or>
     c = 0x2D \<or> c = 0x5F \<or> c = 0x2E \<or> c = 0x21 \<or> c = 0x7E \<or> c = 0x2A \<or>
     c = 0x27 \<or> c = 0x28 \<or> c = 0x29"

definition is_lead :: "jschar \<Rightarrow> bool" where
  "is_lead c \<longleftrightarrow> 0xD800 \<le> c \<and> c \<le> 0xDBFF"

definition is_trail :: "jschar \<Rightarrow> bool" where
  "is_trail c \<longleftrightarrow> 0xDC00 \<le> c \<and> c \<le> 0xDFFF"

definition pair_cp :: "jschar \<Rightarrow> jschar \<Rightarrow> nat" where
  "pair_cp hi lo = (unat hi - 0xD800) * 0x400 + (unat lo - 0xDC00) + 0x10000"

definition utf8 :: "nat \<Rightarrow> nat list" where
  "utf8 cp =
     (if cp < 0x80 then [cp]
      else if cp < 0x800 then [0xC0 + cp div 0x40, 0x80 + cp mod 0x40]
      else if cp < 0x10000 then
        [0xE0 + cp div 0x1000, 0x80 + cp div 0x40 mod 0x40, 0x80 + cp mod 0x40]
      else [0xF0 + cp div 0x40000, 0x80 + cp div 0x1000 mod 0x40,
            0x80 + cp div 0x40 mod 0x40, 0x80 + cp mod 0x40])"

definition hex_digit :: "nat \<Rightarrow> jschar" where
  "hex_digit d = (if d < 10 then of_nat (0x30 + d) else of_nat (0x41 + (d - 10)))"

definition pct :: "nat \<Rightarrow> jsstring" where
  "pct b = [0x25, hex_digit (b div 16), hex_digit (b mod 16)]"

definition pct_utf8 :: "nat \<Rightarrow> jsstring" where
  "pct_utf8 cp = concat (map pct (utf8 cp))"

fun encodeURIComponent :: "jsstring \<Rightarrow> jsstring option" where
  "encodeURIComponent [] = Some []"
| "encodeURIComponent (c # cs) =
     (if unreserved c then map_option ((#) c) (encodeURIComponent cs)
      else if is_lead c then
        (case cs of
           [] \<Rightarrow> None
         | d # ds \<Rightarrow>
             if is_trail d
             then map_option ((@) (pct_utf8 (pair_cp c d))) (encodeURIComponent ds)
             else None)
      else if is_trail c then None
      else map_option ((@) (pct_utf8 (unat c))) (encodeURIComponent cs))"

definition encodeState :: "jsstring \<Rightarrow> jsstring" where
  "encodeState s = (case encodeURIComponent s of Some r \<Rightarrow> r | None \<Rightarrow> s)"

text \<open>
  \<open>decodeURIComponent\<close>: a code unit other than \<open>%\<close> stays; \<open>%\<close> needs two
  hexadecimal digits after it, of either case, which give a byte. A byte below
  \<open>0x80\<close> is a code unit; a byte with \<open>n\<close> leading one bits, \<open>n\<close> from 2 to 4, opens
  a UTF-8 sequence of \<open>n\<close> bytes, the others escaped too and of the form \<open>10xxxxxx\<close>,
  which must be the shortest encoding of a code point that is no surrogate and at most
  \<open>0x10FFFF\<close>; the code point is written in UTF-16. Everything else throws URIError:
  \<open>None\<close>.
\<close>

definition hex_val :: "jschar \<Rightarrow> nat option" where
  "hex_val c =
     (if 0x30 \<le> c \<and> c \<le> 0x39 then Some (unat c - 0x30)
      else if 0x41 \<le> c \<and> c \<le> 0x46 then Some (unat c - 0x41 + 10)
      else if 0x61 \<le> c \<and> c \<le> 0x66 then Some (unat c - 0x61 + 10)
      else None)"

text \<open>The two digits at the head of \<open>cs\<close> as a byte, and what follows them.\<close>

definition hex_octet :: "jsstring \<Rightarrow> (nat \<times> jsstring) option" where
  "hex_octet cs =
     (case cs of
        h # l # rest \<Rightarrow>
          (case hex_val h of
             None \<Rightarrow> None
           | Some a \<Rightarrow> (case hex_val l of None \<Rightarrow> None | Some b \<Rightarrow> Some (16 * a + b, rest)))
      | _ \<Rightarrow> None)"

text \<open>\<open>n\<close> escaped continuation bytes at the head of \<open>cs\<close>, and what follows them.\<close>

fun cont_octets :: "nat \<Rightarrow> jsstring \<Rightarrow> (nat list \<times> jsstring) option" where
  "cont_octets 0 cs = Some ([], cs)"
| "cont_octets (Suc n) [] = None"
| "cont_octets (Suc n) (c # cs) =
     (if c \<noteq> 0x25 then None
      else case hex_octet cs of
             None \<Rightarrow> None
           | Some (b, rest) \<Rightarrow>
               if b div 0x40 \<noteq> 2 then None
               else (case cont_octets n rest of
                       None \<Rightarrow> None
                     | Some (bs, rest') \<Rightarrow> Some (b # bs, rest')))"

definition leading_ones :: "nat \<Rightarrow> nat" where
  "leading_ones b =
     (if b < 0x80 then 0 else if b < 0xC0 then 1 else if b < 0xE0 then 2
      else if b < 0xF0 then 3 else if b < 0xF8 then 4 else 5)"

text \<open>The code point of a lead byte and its continuation bytes, when it is valid.\<close>

definition utf8_cp :: "nat \<Rightarrow> nat list \<Rightarrow> nat option" where
  "utf8_cp b bs =
     (let n = length bs;
          v = foldl (\<lambda>a c. a * 0x40 + c mod 0x40) (b mod (2 ^ (6 - n))) bs;
          least = (if n = 1 then 0x80 else if n = 2 then 0x800 else 0x10000)
      in if v < least \<or> (0xD800 \<le> v \<and> v \<le> 0xDFFF) \<or> 0x10FFFF < v then None else Some v)"

definition utf16 :: "nat \<Rightarrow> jsstring" where
  "utf16 cp =
     (if cp < 0x10000 then [of_nat cp]
      else [of_nat (0xD800 + (cp - 0x10000) div 0x400), of_nat (0xDC00 + (cp - 0x10000) mod 0x400)])"

lemma hex_octet_shorter: "hex_octet cs = Some (b, rest) \<Longrightarrow> length rest < length cs"
  by (auto simp: hex_octet_def split: list.splits option.splits)

lemma cont_octets_shorter: "cont_octets n cs = Some (bs, rest) \<Longrightarrow> length rest \<le> length cs"
proof (induction n cs arbitrary: bs rest rule: cont_octets.induct)
  case (3 n c cs)
  then show ?case
    by (fastforce split: if_splits option.splits prod.splits dest: hex_octet_shorter)
qed simp_all

function decodeURIComponent :: "jsstring \<Rightarrow> jsstring option" where
  "decodeURIComponent [] = Some []"
| "decodeURIComponent (c # cs) =
     (if c \<noteq> 0x25 then map_option ((#) c) (decodeURIComponent cs)
      else case hex_octet cs of
             None \<Rightarrow> None
           | Some (b, rest) \<Rightarrow>
               if b < 0x80 then map_option ((#) (of_nat b)) (decodeURIComponent rest)
               else if leading_ones b = 1 \<or> 4 < leading_ones b then None
               else (case cont_octets (leading_ones b - 1) rest of
                       None \<Rightarrow> None
                     | Some (bs, rest') \<Rightarrow>
                         (case utf8_cp b bs of
                            None \<Rightarrow> None
                          | Some cp \<Rightarrow> map_option ((@) (utf16 cp)) (decodeURIComponent rest'))))"
  by pat_completeness auto
termination
proof (relation "measure length", goal_cases)
  case 1
  show ?case by simp
next
  case (2 c cs)
  show ?case by simp
next
  case (3 c cs x b rest)
  then show ?case by (auto dest: hex_octet_shorter)
next
  case (4 c cs x b rest x' bs rest' cp)
  then show ?case
    by (auto dest!: hex_octet_shorter cont_octets_shorter)
qed

definition decodeState :: "jsstring \<Rightarrow> jsstring" where
  "decodeState s = (case decodeURIComponent s of Some r \<Rightarrow> r | None \<Rightarrow> s)"

section \<open>Reading the saved state\<close>

text \<open>
  The two regular expressions of \<open>extractSavedState\<close>, \<open>/^#\s*INPUT:\s*(.+)$/m\<close> and
  \<open>/^#\s*CARET:\s*(\d+)$/m\<close>, as backtracking matchers. A matcher takes the rest of
  the subject and returns the first group of the match, if there is one.

  \<open>rx_lit l k\<close> matches the literal \<open>l\<close> and goes on with \<open>k\<close>. \<open>rx_ws_star k\<close> is
  the greedy \<open>\s*\<close>: it takes one more white space and tries again, and gives it
  back when nothing matches from there. \<open>rx_dots_eol\<close> is a greedy \<open>.*\<close> followed by
  \<open>$\<close>, and \<open>rx_digits_eol\<close> a greedy \<open>\d*\<close> followed by \<open>$\<close>: with the flag \<open>m\<close>,
  \<open>$\<close> holds at the end of the subject and before a line terminator.
\<close>

definition rx_lit :: "jsstring \<Rightarrow> (jsstring \<Rightarrow> jsstring option) \<Rightarrow> jsstring \<Rightarrow> jsstring option" where
  "rx_lit l k cs = (if prefix l cs then k (drop (length l) cs) else None)"

fun rx_ws_star :: "(jsstring \<Rightarrow> jsstring option) \<Rightarrow> jsstring \<Rightarrow> jsstring option" where
  "rx_ws_star k [] = k []"
| "rx_ws_star k (c # cs) =
     (if is_ws c
      then (case rx_ws_star k cs of Some g \<Rightarrow> Some g | None \<Rightarrow> k (c # cs))
      else k (c # cs))"

fun rx_dots_eol :: "jsstring \<Rightarrow> jsstring option" where
  "rx_dots_eol [] = Some []"
| "rx_dots_eol (c # cs) =
     (if is_lt c then Some []
      else (case rx_dots_eol cs of Some g \<Rightarrow> Some (c # g) | None \<Rightarrow> None))"

fun rx_digits_eol :: "jsstring \<Rightarrow> jsstring option" where
  "rx_digits_eol [] = Some []"
| "rx_digits_eol (c # cs) =
     (if is_digit c
      then (case rx_digits_eol cs of Some g \<Rightarrow> Some (c # g) | None \<Rightarrow> None)
      else if is_lt c then Some [] else None)"

text \<open>\<open>(.+)$\<close> and \<open>(\d+)$\<close>: one code unit of the class, then the starred form.\<close>

definition rx_group_any :: "jsstring \<Rightarrow> jsstring option" where
  "rx_group_any cs =
     (case cs of
        [] \<Rightarrow> None
      | c # cs' \<Rightarrow> if is_lt c then None else map_option ((#) c) (rx_dots_eol cs'))"

definition rx_group_digits :: "jsstring \<Rightarrow> jsstring option" where
  "rx_group_digits cs =
     (case cs of
        [] \<Rightarrow> None
      | c # cs' \<Rightarrow> if is_digit c then map_option ((#) c) (rx_digits_eol cs') else None)"

definition rx_INPUT :: "jsstring \<Rightarrow> jsstring option" where
  "rx_INPUT = rx_lit (js ''#'') (rx_ws_star (rx_lit (js ''INPUT:'') (rx_ws_star rx_group_any)))"

definition rx_CARET :: "jsstring \<Rightarrow> jsstring option" where
  "rx_CARET = rx_lit (js ''#'') (rx_ws_star (rx_lit (js ''CARET:'') (rx_ws_star rx_group_digits)))"

text \<open>
  \<open>segment.match(re)\<close> for an expression that opens with \<open>^\<close> under the flag \<open>m\<close>:
  the match at the leftmost start of a line that has one. \<open>bol\<close> says that the rest
  \<open>cs\<close> starts a line.
\<close>

fun match_lines :: "(jsstring \<Rightarrow> jsstring option) \<Rightarrow> bool \<Rightarrow> jsstring \<Rightarrow> jsstring option" where
  "match_lines m bol [] = (if bol then m [] else None)"
| "match_lines m bol (c # cs) =
     (case (if bol then m (c # cs) else None) of
        Some g \<Rightarrow> Some g
      | None \<Rightarrow> match_lines m (is_lt c) cs)"

record SavedState =
  saved_input :: jsstring
  saved_caret :: nat

definition extractSavedState :: "jsstring \<Rightarrow> SavedState option" where
  "extractSavedState text =
     (case findBaseBlock text of
        None \<Rightarrow> None
      | Some info \<Rightarrow>
          (let segment = slice text (filtersStart info) (filtersEnd info);
               mInput = match_lines rx_INPUT True segment;
               mCaret = match_lines rx_CARET True segment
           in if mInput = None \<and> mCaret = None then None
              else (let input = (case mInput of Some g \<Rightarrow> decodeState (trim g) | None \<Rightarrow> []);
                        caret = (case mCaret of Some d \<Rightarrow> parseInt d | None \<Rightarrow> length input)
                    in Some \<lparr>saved_input = input, saved_caret = caret\<rparr>)))"

section \<open>Generating the filters\<close>

definition escapeQuote :: "jsstring \<Rightarrow> jsstring" where
  "escapeQuote s = concat (map (\<lambda>c. if c = 0x22 then [0x5C, 0x22] else [c]) s)"

definition quoted :: "jsstring \<Rightarrow> jsstring" where
  "quoted s = js ''\"'' @ escapeQuote s @ js ''\"''"

record MatchSettings =
  enablePrefix :: bool
  enableSuffix :: bool
  enableSubstring :: bool
  refreshDelayMs :: int

text \<open>
  One loop \<open>for (const t of tier) { if (!seen.has(t)) { seen.add(t); merged.push(t); } }\<close>
  of \<open>buildFiltersFromInput\<close>, on the pair of \<open>seen\<close> and \<open>merged\<close>.
\<close>

fun merge_tier ::
  "jsstring list \<Rightarrow> jsstring set \<times> jsstring list \<Rightarrow> jsstring set \<times> jsstring list" where
  "merge_tier [] (seen, merged) = (seen, merged)"
| "merge_tier (t # ts) (seen, merged) =
     (if t \<notin> seen then merge_tier ts (insert t seen, merged @ [t])
      else merge_tier ts (seen, merged))"

text \<open>The body of the loop over \<open>parts\<close>: the line of one part.\<close>

definition filter_line ::
  "(jsstring \<Rightarrow> jsstring) \<Rightarrow> jsstring list \<Rightarrow> MatchSettings \<Rightarrow> jsstring \<Rightarrow> jsstring" where
  "filter_line toLowerCase allTags modes part =
     (let isHash = startsWith_hash part;
          base = (if isHash then trim (slice_from part 1) else part);
          pref = (if enablePrefix modes then prefixMatch toLowerCase allTags base 200 else []);
          suff = (if enableSuffix modes then suffixMatch toLowerCase allTags base 200 else []);
          subs = (if enableSubstring modes then substringMatch toLowerCase allTags base 200 else []);
          merged = snd (merge_tier subs (merge_tier suff (merge_tier pref ({}, []))));
          list = (if base \<noteq> [] then [quoted base] else []) @ map quoted (take 60 merged)
      in js ''    - file.tags.containsAny(['' @ join (js '', '') list @ js ''])'')"

definition buildFiltersFromInput ::
  "(jsstring \<Rightarrow> jsstring) \<Rightarrow> jsstring \<Rightarrow> jsstring list \<Rightarrow> nat option \<Rightarrow> MatchSettings \<Rightarrow> jsstring" where
  "buildFiltersFromInput toLowerCase input allTags caret modes =
     (let s = trim input
      in if length s = 0 then
           join (js ''\<newline>'')
             [js ''filters:'',
              js ''# INPUT: '' @ encodeState input,
              js ''# CARET: '' @ decimal (case caret of Some c \<Rightarrow> c | None \<Rightarrow> 0)]
         else
           (let parts = filter (\<lambda>p. p \<noteq> []) (split_ws [] s);
                lines = map (filter_line toLowerCase allTags modes) parts
            in join (js ''\<newline>'')
                 ([js ''filters:'', js ''  and:''] @ lines @
                  [js ''# INPUT: '' @ encodeState input,
                   js ''# CARET: '' @ decimal (case caret of Some c \<Rightarrow> c | None \<Rightarrow> length input)])))"

section \<open>Suggestions\<close>

text \<open>
  One loop of \<open>getSuggestions\<close>, which leaves as soon as \<open>merged\<close> has 12 entries:
  \<open>for (const t of tier) { if (!seen.has(t)) { seen.add(t); merged.push(t); }
  if (merged.length >= 12) break; }\<close>. The second and the third loop run only when
  \<open>merged.length < 12\<close>.
\<close>

fun merge_tier_capped ::
  "jsstring list \<Rightarrow> jsstring set \<times> jsstring list \<Rightarrow> jsstring set \<times> jsstring list" where
  "merge_tier_capped [] (seen, merged) = (seen, merged)"
| "merge_tier_capped (t # ts) (seen, merged) =
     (let (seen', merged') = (if t \<notin> seen then (insert t seen, merged @ [t]) else (seen, merged))
      in if length merged' \<ge> 12 then (seen', merged') else merge_tier_capped ts (seen', merged'))"

definition guarded_tier ::
  "jsstring list \<Rightarrow> jsstring set \<times> jsstring list \<Rightarrow> jsstring set \<times> jsstring list" where
  "guarded_tier tier sm = (if length (snd sm) < 12 then merge_tier_capped tier sm else sm)"

text \<open>\<open>left.lastIndexOf(" ")\<close>, \<open>None\<close> for \<open>-1\<close>.\<close>

fun lastIndexOf_space :: "jsstring \<Rightarrow> nat option" where
  "lastIndexOf_space [] = None"
| "lastIndexOf_space (c # cs) =
     (case lastIndexOf_space cs of
        Some i \<Rightarrow> Some (Suc i)
      | None \<Rightarrow> if c = 0x20 then Some 0 else None)"

text \<open>
  The token that \<open>getSuggestions\<close> completes. \<open>selectionStart\<close> is \<open>null\<close> or an
  offset.
\<close>

definition current_token :: "jsstring \<Rightarrow> nat option \<Rightarrow> jsstring" where
  "current_token val selectionStart =
     (let caret = (case selectionStart of Some c \<Rightarrow> c | None \<Rightarrow> length val);
          left = slice val 0 caret;
          start = (case lastIndexOf_space left of Some i \<Rightarrow> i + 1 | None \<Rightarrow> 0)
      in slice val start caret)"

definition suggest_merged ::
  "(jsstring \<Rightarrow> jsstring) \<Rightarrow> jsstring list \<Rightarrow> MatchSettings \<Rightarrow> jsstring \<Rightarrow> jsstring list" where
  "suggest_merged toLowerCase allTags modes token =
     (let base = (if startsWith_hash token then slice_from token 1 else token);
          pref = (if enablePrefix modes then prefixMatch toLowerCase allTags base 100 else []);
          suff = (if enableSuffix modes then suffixMatch toLowerCase allTags base 100 else []);
          subs = (if enableSubstring modes then substringMatch toLowerCase allTags base 100 else [])
      in snd (guarded_tier subs (guarded_tier suff (merge_tier_capped pref ({}, [])))))"

definition getSuggestions ::
  "(jsstring \<Rightarrow> jsstring) \<Rightarrow> jsstring list \<Rightarrow> MatchSettings \<Rightarrow> jsstring \<Rightarrow> nat option \<Rightarrow> jsstring list" where
  "getSuggestions toLowerCase allTags modes val selectionStart =
     (let token = current_token val selectionStart
      in if token = [] then []
         else map (\<lambda>t. js ''#'' @ t) (suggest_merged toLowerCase allTags modes token))"

section \<open>The merge, in the words of the specification\<close>

text \<open>
  \<open>mergeOrdered\<close>: the tiers one after the other, a tag that an earlier position has
  emitted skipped, and no more than \<open>cap\<close> results.
\<close>

fun first_occurrences :: "'a list \<Rightarrow> 'a list \<Rightarrow> 'a list" where
  "first_occurrences emitted [] = []"
| "first_occurrences emitted (x # xs) =
     (if x \<in> set emitted then first_occurrences emitted xs
      else x # first_occurrences (emitted @ [x]) xs)"

definition mergeOrdered :: "'a list \<Rightarrow> 'a list \<Rightarrow> 'a list \<Rightarrow> nat \<Rightarrow> 'a list" where
  "mergeOrdered tier1 tier2 tier3 cap = take cap (first_occurrences [] (tier1 @ tier2 @ tier3))"

section \<open>The input of one block and its debounced write cycle\<close>











section \<open>Lines of a filter body\<close>


text \<open>\<open>s.split("\n")\<close>: the lines of a string.\<close>

fun js_lines_from :: "jsstring \<Rightarrow> jsstring \<Rightarrow> jsstring list" where
  "js_lines_from cur [] = [cur]"
| "js_lines_from cur (c # cs) =
     (if c = 0x0A then cur # js_lines_from [] cs else js_lines_from (cur @ [c]) cs)"

definition js_lines :: "jsstring \<Rightarrow> jsstring list" where
  "js_lines s = js_lines_from [] s"

text \<open>A line that holds a tag clause.\<close>

definition is_clause_line :: "jsstring \<Rightarrow> bool" where
  "is_clause_line l = prefix (js ''    - file.tags.containsAny('') l"

section \<open>Tokens and clauses, in the words of the specification\<close>


text \<open>
  The tokens of an input, in the words of the claim: the maximal runs of code units that
  are not white space.
\<close>

function ws_tokens :: "jsstring \<Rightarrow> jsstring list" where
  "ws_tokens [] = []"
| "ws_tokens (c # cs) =
     (if is_ws c then ws_tokens cs
      else takeWhile (\<lambda>x. \<not> is_ws x) (c # cs) # ws_tokens (dropWhile (\<lambda>x. \<not> is_ws x) cs))"
  by pat_completeness auto
termination
  by (relation "measure length") (auto simp: less_Suc_eq_le length_dropWhile_le)

text \<open>
  The tags of a clause: the three tiers, each matcher called with the limit 200, merged
  and cut at 60.
\<close>

definition clause_tags ::
  "(jsstring \<Rightarrow> jsstring) \<Rightarrow> jsstring list \<Rightarrow> MatchSettings \<Rightarrow> jsstring \<Rightarrow> jsstring list" where
  "clause_tags toLowerCase allTags modes base =
     mergeOrdered
       (if enablePrefix modes then prefixMatch toLowerCase allTags base 200 else [])
       (if enableSuffix modes then suffixMatch toLowerCase allTags base 200 else [])
       (if enableSubstring modes then substringMatch toLowerCase allTags base 200 else [])
       60"

text \<open>
  The clause of a token as claim C10 states it: the token without its leading \<open>#\<close>,
  quoted, then the tags.
\<close>

definition claimed_clause ::
  "(jsstring \<Rightarrow> jsstring) \<Rightarrow> jsstring list \<Rightarrow> MatchSettings \<Rightarrow> jsstring \<Rightarrow> jsstring" where
  "claimed_clause toLowerCase allTags modes part =
     js ''    - file.tags.containsAny(['' @
     join (js '', '')
       (quoted (strip_hash part) # map quoted (clause_tags toLowerCase allTags modes (strip_hash part))) @
     js ''])''"

text \<open>The clause as amended: a token that is just \<open>#\<close> is not listed.\<close>

definition clause_of_token ::
  "(jsstring \<Rightarrow> jsstring) \<Rightarrow> jsstring list \<Rightarrow> MatchSettings \<Rightarrow> jsstring \<Rightarrow> jsstring" where
  "clause_of_token toLowerCase allTags modes part =
     js ''    - file.tags.containsAny(['' @
     join (js '', '')
       ((if strip_hash part = [] then [] else [quoted (strip_hash part)]) @
        map quoted (clause_tags toLowerCase allTags modes (strip_hash part))) @
     js ''])''"

section \<open>Example documents\<close>

definition doc_plain :: jsstring where
  "doc_plain = js ''notes\<newline>```base\<newline># BEGIN FILTERS (managed by obsidian-base-live-filter-plugin)\<newline>filters:\<newline># END FILTERS\<newline>views:\<newline>```\<newline>tail''"

definition doc_markers_after_fence :: jsstring where
  "doc_markers_after_fence = js ''```base\<newline>```\<newline># BEGIN FILTERS (managed by obsidian-base-live-filter-plugin)\<newline># END FILTERS''"

definition doc_no_block :: jsstring where
  "doc_no_block = js ''plain notes''"

definition doc_end_first :: jsstring where
  "doc_end_first = js ''```base\<newline># END FILTERS\<newline># BEGIN FILTERS (managed by obsidian-base-live-filter-plugin)\<newline># END FILTERS\<newline>```''"

definition stale_info :: BaseBlockInfo where
  "stale_info = \<lparr>start = 0, endpos = 0, filtersStart = 3, filtersEnd = 5\<rparr>"

definition tags3 :: "jsstring list" where
  "tags3 = [js ''project'', js ''projecta'', js ''urgentcare'']"

definition all_modes :: MatchSettings where
  "all_modes = \<lparr>enablePrefix = True, enableSuffix = True, enableSubstring = True,
                 refreshDelayMs = 1000\<rparr>"

definition tags13 :: "jsstring list" where
  "tags13 = [js ''ta'', js ''tb'', js ''tc'', js ''td'', js ''te'', js ''tf'', js ''tg'',
             js ''th'', js ''ti'', js ''tj'', js ''tk'', js ''tl'', js ''tm'']"

definition doc_cleared :: jsstring where
  "doc_cleared =
     replaceFilters_text doc_plain stale_info
       (buildFiltersFromInput ascii_lower (js '''') tags3 (Some 0) all_modes)"

definition doc_typed :: jsstring where
  "doc_typed =
     replaceFilters_text doc_plain stale_info
       (buildFiltersFromInput ascii_lower (js ''#proj a\<newline>b'') tags3 (Some 3) all_modes)"

definition tags_ab :: "jsstring list" where
  "tags_ab = [js ''aab'', js ''ab'', js ''abz'']"

section \<open>States of the debouncer\<close>








section \<open>Properties of \<open>indexOf\<close>\<close>

lemma indexOf_from_Some:
  "indexOf_from needle i cs = Some k \<Longrightarrow>
     i \<le> k \<and> k - i \<le> length cs \<and> prefix needle (drop (k - i) cs)"
proof (induction cs arbitrary: i)
  case Nil
  then show ?case by (simp split: if_splits)
next
  case (Cons c cs)
  show ?case
  proof (cases "prefix needle (c # cs)")
    case True
    with Cons.prems show ?thesis by simp
  next
    case False
    with Cons.prems have "indexOf_from needle (Suc i) cs = Some k" by simp
    from Cons.IH [OF this] have "Suc i \<le> k" "k - Suc i \<le> length cs"
      "prefix needle (drop (k - Suc i) cs)" by simp_all
    moreover from \<open>Suc i \<le> k\<close> have "k - i = Suc (k - Suc i)" by simp
    ultimately show ?thesis by simp
  qed
qed

lemma indexOf_from_first:
  "indexOf_from needle i cs = Some k \<Longrightarrow> j < k - i \<Longrightarrow> \<not> prefix needle (drop j cs)"
proof (induction cs arbitrary: i j)
  case Nil
  then show ?case by (simp split: if_splits)
next
  case (Cons c cs)
  show ?case
  proof (cases "prefix needle (c # cs)")
    case True
    with Cons.prems show ?thesis by simp
  next
    case False
    with Cons.prems have rec: "indexOf_from needle (Suc i) cs = Some k" by simp
    show ?thesis
    proof (cases j)
      case 0
      with False show ?thesis by simp
    next
      case (Suc j')
      with Cons.prems have "j' < k - Suc i" by simp
      from Cons.IH [OF rec this] Suc show ?thesis by simp
    qed
  qed
qed

lemma indexOf_from_None:
  "indexOf_from needle i cs = None \<Longrightarrow> j \<le> length cs \<Longrightarrow> \<not> prefix needle (drop j cs)"
proof (induction cs arbitrary: i j)
  case Nil
  then show ?case by (simp split: if_splits)
next
  case (Cons c cs)
  from Cons.prems have np: "\<not> prefix needle (c # cs)"
    and rec: "indexOf_from needle (Suc i) cs = None"
    by (simp_all split: if_splits)
  show ?case
  proof (cases j)
    case 0
    with np show ?thesis by simp
  next
    case (Suc j')
    with Cons.prems have "j' \<le> length cs" by simp
    from Cons.IH [OF rec this] Suc show ?thesis by simp
  qed
qed

lemma indexOf_Some:
  assumes "indexOf text needle pos = Some k"
  shows "min pos (length text) \<le> k" and "occurs_at needle text k"
    and "k + length needle \<le> length text"
proof -
  let ?p = "min pos (length text)"
  from assms have r: "indexOf_from needle ?p (drop pos text) = Some k"
    by (simp add: indexOf_def)
  from indexOf_from_Some [OF r]
  have a: "?p \<le> k" and b: "k - ?p \<le> length (drop pos text)"
    and c: "prefix needle (drop (k - ?p) (drop pos text))" by blast+
  show "?p \<le> k" by (rule a)
  have d: "drop (k - ?p) (drop pos text) = drop k text"
  proof (cases "pos \<le> length text")
    case True
    with a have "k - ?p + pos = k" by (simp add: min_def)
    then show ?thesis by simp
  next
    case False
    with a have "length text \<le> k" "length text \<le> pos" by (simp_all add: min_def)
    then show ?thesis by simp
  qed
  from a b have kl: "k \<le> length text" by (simp add: min_def split: if_splits)
  with c d show "occurs_at needle text k" by (simp add: occurs_at_def)
  from c d have "length needle \<le> length (drop k text)"
    by (metis prefix_length_le)
  with kl show "k + length needle \<le> length text" by simp
qed

lemma indexOf_first:
  assumes "indexOf text needle pos = Some k" and "pos \<le> j" and "j < k"
  shows "\<not> occurs_at needle text j"
proof -
  let ?p = "min pos (length text)"
  from assms(1) have r: "indexOf_from needle ?p (drop pos text) = Some k"
    by (simp add: indexOf_def)
  from indexOf_Some(3) [OF assms(1)] assms(3) have "j < length text" by simp
  with assms(2) have p: "?p = pos" by (simp add: min_def)
  from assms(2,3) have "j - pos < k - pos" by simp
  from indexOf_from_first [OF r [unfolded p] this] assms(2)
  show ?thesis by (simp add: occurs_at_def)
qed

lemma indexOf_None:
  assumes "indexOf text needle pos = None" and "pos \<le> j"
  shows "\<not> occurs_at needle text j"
proof
  assume o: "occurs_at needle text j"
  then have jl: "j \<le> length text" and pj: "prefix needle (drop j text)"
    by (simp_all add: occurs_at_def)
  from assms(1) have r: "indexOf_from needle (min pos (length text)) (drop pos text) = None"
    by (simp add: indexOf_def)
  from assms(2) jl have "j - pos \<le> length (drop pos text)" by simp
  from indexOf_from_None [OF r this] assms(2) pj show False by simp
qed

lemma length_END_MARK: "length END_MARK = 13"
  by (simp add: END_MARK_def js_def)

lemma length_BEGIN_MARK: "length BEGIN_MARK = 61"
  by (simp add: BEGIN_MARK_def js_def)

lemma length_FENCE_START: "length FENCE_START = 7"
  by (simp add: FENCE_START_def js_def)

section \<open>The managed region: locating and replacing\<close>

lemma findBaseBlock_doc_plain:
  "findBaseBlock doc_plain = Some \<lparr>start = 6, endpos = 109, filtersStart = 14, filtersEnd = 98\<rparr>"
  by (simp add: findBaseBlock_def doc_plain_def indexOf_def FENCE_START_def BEGIN_MARK_def
      END_MARK_def js_def)

lemma findBaseBlock_SomeD:
  assumes "findBaseBlock t = Some r"
  shows "indexOf t FENCE_START 0 = Some (start r)"
    and "\<exists>fenceEnd. indexOf t (js ''\<newline>```'') (start r + length FENCE_START) = Some fenceEnd \<and> endpos r = fenceEnd + 4"
    and "indexOf t BEGIN_MARK (start r) = Some (filtersStart r)"
    and "\<exists>endIdx. indexOf t END_MARK (start r) = Some endIdx \<and> filtersStart r \<le> endIdx
           \<and> filtersEnd r = endIdx + length END_MARK"
  using assms
  by (auto simp: findBaseBlock_def split: option.splits if_splits)

lemma findBaseBlock_bounds:
  assumes "findBaseBlock t = Some r"
  shows "start r \<le> filtersStart r" and "filtersStart r \<le> filtersEnd r"
    and "filtersEnd r \<le> length t" and "start r \<le> endpos r" and "endpos r \<le> length t"
proof -
  from findBaseBlock_SomeD [OF assms] obtain fenceEnd endIdx where
    f: "indexOf t FENCE_START 0 = Some (start r)"
    and c: "indexOf t (js ''\<newline>```'') (start r + length FENCE_START) = Some fenceEnd"
      "endpos r = fenceEnd + 4"
    and b: "indexOf t BEGIN_MARK (start r) = Some (filtersStart r)"
    and e: "indexOf t END_MARK (start r) = Some endIdx" "filtersStart r \<le> endIdx"
      "filtersEnd r = endIdx + length END_MARK"
    by blast
  from indexOf_Some(3) [OF f] have sl: "start r \<le> length t" by simp
  from indexOf_Some(1) [OF b] sl show "start r \<le> filtersStart r" by simp
  from e show "filtersStart r \<le> filtersEnd r" by simp
  from indexOf_Some(3) [OF e(1)] e(3) show "filtersEnd r \<le> length t" by simp
  from indexOf_Some(3) [OF c(1)] c(2) show "endpos r \<le> length t" by (simp add: js_def)
  from indexOf_Some(1) [OF c(1)] indexOf_Some(3) [OF c(1)] c(2) sl
  show "start r \<le> endpos r" by (simp add: js_def min_def split: if_splits)
qed

lemma replaceFilters_text_located:
  "findBaseBlock t = Some r \<Longrightarrow>
     replaceFilters_text t info b = take (filtersStart r) t @ replacement b @ drop (filtersEnd r) t"
  by (simp add: replaceFilters_text_def slice_def slice_from_def)

lemma replaceFilters_text_fallback:
  "findBaseBlock t = None \<Longrightarrow>
     replaceFilters_text t info b = take (filtersStart info) t @ replacement b @ drop (filtersEnd info) t"
  by (simp add: replaceFilters_text_def slice_def slice_from_def)

text \<open>
  Claim C1. For a text \<open>t\<close> in which \<open>findBaseBlock\<close> locates the region \<open>r\<close>, the
  replace operation, whatever region the caller passed and whatever the new body \<open>b\<close>,
  gives the text before \<open>filtersStart r\<close>, then the begin marker, \<open>b\<close> and the end
  marker on lines of their own, then the text from \<open>filtersEnd r\<close> on: the prefix and the
  suffix of the result are those of \<open>t\<close>, code unit for code unit, and in the vault only
  the file's own text changes.
\<close>

theorem replace_frame:
  assumes "findBaseBlock t = Some r"
  shows "filtersStart r \<le> filtersEnd r \<and> filtersEnd r \<le> length t \<and>
         replaceFilters_text t info b =
           take (filtersStart r) t @ BEGIN_MARK @ js ''\<newline>'' @ b @ js ''\<newline>'' @ END_MARK
             @ drop (filtersEnd r) t \<and>
         take (filtersStart r) (replaceFilters_text t info b) = take (filtersStart r) t \<and>
         drop (filtersStart r + length (replacement b)) (replaceFilters_text t info b)
           = drop (filtersEnd r) t \<and>
         (\<forall>v file. v file = Some t \<longrightarrow>
            replaceFiltersInBaseBlock v file info b
              = Some (v(file \<mapsto> replaceFilters_text t info b)))"
proof -
  note bounds = findBaseBlock_bounds [OF assms]
  have len: "length (take (filtersStart r) t) = filtersStart r"
    using bounds(2,3) by simp
  have eq: "replaceFilters_text t info b
      = take (filtersStart r) t @ replacement b @ drop (filtersEnd r) t"
    by (rule replaceFilters_text_located [OF assms])
  have pre: "take (filtersStart r) (replaceFilters_text t info b) = take (filtersStart r) t"
    unfolding eq using len by simp
  have post: "drop (filtersStart r + length (replacement b)) (replaceFilters_text t info b)
      = drop (filtersEnd r) t"
    unfolding eq using len by simp
  have wr: "\<forall>v file. v file = Some t \<longrightarrow>
      replaceFiltersInBaseBlock v file info b = Some (v(file \<mapsto> replaceFilters_text t info b))"
    by (simp add: replaceFiltersInBaseBlock_def)
  from bounds(2,3) eq pre post wr show ?thesis
    by (simp add: replacement_def)
qed

text \<open>The frame property at a document with notes before the block and text after it.\<close>

theorem replace_frame_witness:
  "findBaseBlock doc_plain = Some \<lparr>start = 6, endpos = 109, filtersStart = 14, filtersEnd = 98\<rparr> \<and>
   take 14 (replaceFilters_text doc_plain \<lparr>start = 0, endpos = 0, filtersStart = 3, filtersEnd = 5\<rparr> (js ''filters:''))
     = js ''notes\<newline>```base\<newline>'' \<and>
   drop (14 + length (replacement (js ''filters:'')))
     (replaceFilters_text doc_plain \<lparr>start = 0, endpos = 0, filtersStart = 3, filtersEnd = 5\<rparr> (js ''filters:''))
     = js ''\<newline>views:\<newline>```\<newline>tail''"
proof -
  let ?r = "\<lparr>start = 6, endpos = 109, filtersStart = 14, filtersEnd = 98\<rparr>"
  let ?new = "replaceFilters_text doc_plain
    \<lparr>start = 0, endpos = 0, filtersStart = 3, filtersEnd = 5\<rparr> (js ''filters:'')"
  note th = replace_frame [OF findBaseBlock_doc_plain,
      of "\<lparr>start = 0, endpos = 0, filtersStart = 3, filtersEnd = 5\<rparr>" "js ''filters:''"]
  from th have "take (filtersStart ?r) ?new = take (filtersStart ?r) doc_plain"
    by blast
  then have a: "take 14 ?new = js ''notes\<newline>```base\<newline>''"
    by (simp add: doc_plain_def js_def)
  from th have "drop (filtersStart ?r + length (replacement (js ''filters:''))) ?new
      = drop (filtersEnd ?r) doc_plain"
    by blast
  then have b: "drop (14 + length (replacement (js ''filters:''))) ?new
      = js ''\<newline>views:\<newline>```\<newline>tail''"
    by (simp add: doc_plain_def js_def)
  from a b findBaseBlock_doc_plain show ?thesis by blast
qed

lemma findBaseBlock_doc_no_block: "findBaseBlock doc_no_block = None"
  by (simp add: findBaseBlock_def doc_no_block_def indexOf_def FENCE_START_def js_def)

text \<open>
  Claim C7. \<open>replaceFiltersInBaseBlock\<close> locates the region again in the text it has
  just read. When that succeeds, the splice is at the offsets found, whatever region
  \<open>info\<close> the caller passed; when it fails, the splice is at the caller's offsets, and
  the file is written all the same.
\<close>

theorem replace_relocates:
  assumes "v p = Some t"
  shows "(\<forall>l. findBaseBlock t = Some l \<longrightarrow>
            replaceFiltersInBaseBlock v p info b
              = Some (v(p \<mapsto> take (filtersStart l) t @ replacement b @ drop (filtersEnd l) t))) \<and>
         (findBaseBlock t = None \<longrightarrow>
            replaceFiltersInBaseBlock v p info b
              = Some (v(p \<mapsto> take (filtersStart info) t @ replacement b
                                   @ drop (filtersEnd info) t)))"
proof (intro conjI allI impI)
  fix l
  assume "findBaseBlock t = Some l"
  from replaceFilters_text_located [OF this] assms
  show "replaceFiltersInBaseBlock v p info b
      = Some (v(p \<mapsto> take (filtersStart l) t @ replacement b @ drop (filtersEnd l) t))"
    by (simp add: replaceFiltersInBaseBlock_def)
next
  assume "findBaseBlock t = None"
  from replaceFilters_text_fallback [OF this] assms
  show "replaceFiltersInBaseBlock v p info b
      = Some (v(p \<mapsto> take (filtersStart info) t @ replacement b @ drop (filtersEnd info) t))"
    by (simp add: replaceFiltersInBaseBlock_def)
qed

text \<open>
  Both branches with the same stale region (offsets 3 and 5): a document with a block,
  where the offsets found (14 and 98) are used, and one with no block, which is spliced
  at 3 and 5.
\<close>

theorem replace_relocates_witness:
  "replaceFiltersInBaseBlock [''a.md'' \<mapsto> doc_plain] ''a.md'' stale_info (js ''filters:'')
     = Some [''a.md'' \<mapsto> js ''notes\<newline>```base\<newline>'' @ replacement (js ''filters:'')
                              @ js ''\<newline>views:\<newline>```\<newline>tail''] \<and>
   replaceFiltersInBaseBlock [''a.md'' \<mapsto> doc_no_block] ''a.md'' stale_info (js ''filters:'')
     = Some [''a.md'' \<mapsto> js ''pla'' @ replacement (js ''filters:'') @ js '' notes'']"
proof -
  let ?b = "js ''filters:''"
  have v1: "[''a.md'' \<mapsto> doc_plain] ''a.md'' = Some doc_plain" by simp
  have v2: "[''a.md'' \<mapsto> doc_no_block] ''a.md'' = Some doc_no_block" by simp
  from replace_relocates [where v = "[''a.md'' \<mapsto> doc_plain]" and p = "''a.md''"
      and t = doc_plain and info = stale_info and b = ?b, OF v1] findBaseBlock_doc_plain
  have "replaceFiltersInBaseBlock [''a.md'' \<mapsto> doc_plain] ''a.md'' stale_info ?b
      = Some ([''a.md'' \<mapsto> doc_plain](''a.md'' \<mapsto>
          take 14 doc_plain @ replacement ?b @ drop 98 doc_plain))"
    by simp
  moreover have "take 14 doc_plain = js ''notes\<newline>```base\<newline>''"
    "drop 98 doc_plain = js ''\<newline>views:\<newline>```\<newline>tail''"
    by (simp_all add: doc_plain_def js_def)
  ultimately have a: "replaceFiltersInBaseBlock [''a.md'' \<mapsto> doc_plain] ''a.md'' stale_info ?b
      = Some [''a.md'' \<mapsto> js ''notes\<newline>```base\<newline>'' @ replacement ?b
                               @ js ''\<newline>views:\<newline>```\<newline>tail'']"
    by simp
  from replace_relocates [where v = "[''a.md'' \<mapsto> doc_no_block]" and p = "''a.md''"
      and t = doc_no_block and info = stale_info and b = ?b, OF v2] findBaseBlock_doc_no_block
  have "replaceFiltersInBaseBlock [''a.md'' \<mapsto> doc_no_block] ''a.md'' stale_info ?b
      = Some ([''a.md'' \<mapsto> doc_no_block](''a.md'' \<mapsto>
          take 3 doc_no_block @ replacement ?b @ drop 5 doc_no_block))"
    by (simp add: stale_info_def)
  moreover have "take 3 doc_no_block = js ''pla''" "drop 5 doc_no_block = js '' notes''"
    by (simp_all add: doc_no_block_def js_def)
  ultimately have b: "replaceFiltersInBaseBlock [''a.md'' \<mapsto> doc_no_block] ''a.md'' stale_info ?b
      = Some [''a.md'' \<mapsto> js ''pla'' @ replacement ?b @ js '' notes'']"
    by simp
  from a b show ?thesis by blast
qed

text \<open>
  Claim C2 as stated fails: the markers are searched from the start of the fence to the
  end of the text, not to the close of the fence. In a document whose fence closes
  before the markers, the region found ends at 87, beyond the end of the fence at 11.
\<close>

theorem findBaseBlock_end_beyond_fence:
  "findBaseBlock doc_markers_after_fence
     = Some \<lparr>start = 0, endpos = 11, filtersStart = 12, filtersEnd = 87\<rparr> \<and>
   \<not> (filtersEnd \<lparr>start = 0, endpos = 11, filtersStart = 12, filtersEnd = 87\<rparr>
        \<le> endpos \<lparr>start = 0, endpos = 11, filtersStart = 12, filtersEnd = 87\<rparr>)"
  by (simp add: findBaseBlock_def doc_markers_after_fence_def indexOf_def FENCE_START_def
      BEGIN_MARK_def END_MARK_def js_def)

text \<open>
  Claim C2, amended. A region that \<open>findBaseBlock\<close> returns has
  \<open>start \<le> filtersStart \<le> filtersEnd \<le> length t\<close> and \<open>start \<le> endpos \<le> length t\<close>.
  It returns nothing when the text has no fence, when no fence close follows the fence
  start, when the begin marker or the end marker does not occur at or after the fence
  start, and when an end marker occurs there with no begin marker at or before it.
\<close>

theorem findBaseBlock_region:
  "(\<forall>r. findBaseBlock t = Some r \<longrightarrow>
      start r \<le> filtersStart r \<and> filtersStart r \<le> filtersEnd r \<and> filtersEnd r \<le> length t \<and>
      start r \<le> endpos r \<and> endpos r \<le> length t) \<and>
   (indexOf t FENCE_START 0 = None \<longrightarrow> findBaseBlock t = None) \<and>
   (\<forall>f. indexOf t FENCE_START 0 = Some f \<and>
      ((\<forall>k\<ge>f. \<not> occurs_at (js ''\<newline>```'') t (k + length FENCE_START)) \<or>
       (\<forall>k\<ge>f. \<not> occurs_at BEGIN_MARK t k) \<or>
       (\<forall>k\<ge>f. \<not> occurs_at END_MARK t k) \<or>
       (\<exists>e\<ge>f. occurs_at END_MARK t e \<and> (\<forall>k. f \<le> k \<and> k \<le> e \<longrightarrow> \<not> occurs_at BEGIN_MARK t k)))
      \<longrightarrow> findBaseBlock t = None)"
proof -
  have bounds: "\<forall>r. findBaseBlock t = Some r \<longrightarrow>
      start r \<le> filtersStart r \<and> filtersStart r \<le> filtersEnd r \<and> filtersEnd r \<le> length t \<and>
      start r \<le> endpos r \<and> endpos r \<le> length t"
    using findBaseBlock_bounds by blast
  have nofence: "indexOf t FENCE_START 0 = None \<longrightarrow> findBaseBlock t = None"
    by (simp add: findBaseBlock_def)
  have absent: "findBaseBlock t = None"
    if f: "indexOf t FENCE_START 0 = Some f"
    and h: "(\<forall>k\<ge>f. \<not> occurs_at (js ''\<newline>```'') t (k + length FENCE_START)) \<or>
       (\<forall>k\<ge>f. \<not> occurs_at BEGIN_MARK t k) \<or>
       (\<forall>k\<ge>f. \<not> occurs_at END_MARK t k) \<or>
       (\<exists>e\<ge>f. occurs_at END_MARK t e \<and> (\<forall>k. f \<le> k \<and> k \<le> e \<longrightarrow> \<not> occurs_at BEGIN_MARK t k))"
    for f
  proof (rule ccontr)
    assume "findBaseBlock t \<noteq> None"
    then obtain r where r: "findBaseBlock t = Some r" by blast
    from findBaseBlock_SomeD [OF r] f obtain fenceEnd endIdx where
      sf: "start r = f"
      and c: "indexOf t (js ''\<newline>```'') (f + length FENCE_START) = Some fenceEnd"
      and b: "indexOf t BEGIN_MARK f = Some (filtersStart r)"
      and e: "indexOf t END_MARK f = Some endIdx" "filtersStart r \<le> endIdx"
      by auto
    from indexOf_Some(3) [OF f] have fl: "f \<le> length t" by simp
    from indexOf_Some(1) [OF c] indexOf_Some(3) [OF c]
    have c1: "f + length FENCE_START \<le> fenceEnd"
      by (simp add: min_def js_def split: if_splits)
    note c2 = indexOf_Some(2) [OF c]
    from indexOf_Some(1) [OF b] fl have b1: "f \<le> filtersStart r" by simp
    note b2 = indexOf_Some(2) [OF b]
    from indexOf_Some(1) [OF e(1)] fl have e1: "f \<le> endIdx" by simp
    note e2 = indexOf_Some(2) [OF e(1)]
    from h consider
      (close) "\<forall>k\<ge>f. \<not> occurs_at (js ''\<newline>```'') t (k + length FENCE_START)"
      | (beg) "\<forall>k\<ge>f. \<not> occurs_at BEGIN_MARK t k"
      | (en) "\<forall>k\<ge>f. \<not> occurs_at END_MARK t k"
      | (order) x where "x \<ge> f" "occurs_at END_MARK t x"
          "\<forall>k. f \<le> k \<and> k \<le> x \<longrightarrow> \<not> occurs_at BEGIN_MARK t k"
      by blast
    then show False
    proof cases
      case close
      from c1 have "fenceEnd = (fenceEnd - length FENCE_START) + length FENCE_START"
        "f \<le> fenceEnd - length FENCE_START" by simp_all
      with close c2 show False by metis
    next
      case beg
      with b1 b2 show False by blast
    next
      case en
      with e1 e2 show False by blast
    next
      case order
      have "endIdx \<le> x"
      proof (rule ccontr)
        assume "\<not> endIdx \<le> x"
        with indexOf_first [OF e(1), of x] order(1,2) show False by simp
      qed
      with e(2) b1 b2 order(3) show False by auto
    qed
  qed
  from bounds nofence absent show ?thesis by blast
qed

lemma findBaseBlock_doc_end_first_facts:
  "indexOf doc_end_first FENCE_START 0 = Some 0"
  "indexOf doc_end_first BEGIN_MARK 0 = Some 22"
  "occurs_at END_MARK doc_end_first 8"
  by (simp_all add: doc_end_first_def indexOf_def occurs_at_def FENCE_START_def BEGIN_MARK_def
      END_MARK_def js_def)

text \<open>
  The amended claim at a document with a block, at one with no fence and at one whose
  first end marker comes before the begin marker.
\<close>

theorem findBaseBlock_region_witness:
  "findBaseBlock doc_plain = Some \<lparr>start = 6, endpos = 109, filtersStart = 14, filtersEnd = 98\<rparr> \<and>
   98 \<le> length doc_plain \<and> 109 \<le> length doc_plain \<and>
   findBaseBlock doc_no_block = None \<and> findBaseBlock doc_end_first = None"
proof -
  let ?r = "\<lparr>start = 6, endpos = 109, filtersStart = 14, filtersEnd = 98\<rparr>"
  from findBaseBlock_region [of doc_plain] findBaseBlock_doc_plain
  have "filtersEnd ?r \<le> length doc_plain \<and> endpos ?r \<le> length doc_plain" by blast
  then have a: "98 \<le> length doc_plain" "109 \<le> length doc_plain" by simp_all
  have "indexOf doc_no_block FENCE_START 0 = None"
    by (simp add: doc_no_block_def indexOf_def FENCE_START_def js_def)
  with findBaseBlock_region [of doc_no_block]
  have b: "findBaseBlock doc_no_block = None" by blast
  have "\<forall>k. 0 \<le> k \<and> k \<le> 8 \<longrightarrow> \<not> occurs_at BEGIN_MARK doc_end_first k"
    using indexOf_first [OF findBaseBlock_doc_end_first_facts(2)] by simp
  with findBaseBlock_doc_end_first_facts(1,3) findBaseBlock_region [of doc_end_first]
  have c: "findBaseBlock doc_end_first = None" by blast
  from a b c findBaseBlock_doc_plain show ?thesis by blast
qed

section \<open>Matchers\<close>

lemma subseq_take_filter: "subseq (take n (filter P xs)) xs"
proof -
  have "subseq (take n (filter P xs)) (filter P xs)"
    by (metis append_take_drop_id prefix_def prefix_imp_subseq)
  also have "subseq (filter P xs) xs" by simp
  finally show ?thesis .
qed

lemma sorted_wrt_take_filter: "sorted_wrt R xs \<Longrightarrow> sorted_wrt R (take n (filter P xs))"
  by (simp add: sorted_wrt_filter sorted_wrt_take)

lemma ascii_lower_Nil: "ascii_lower [] = []"
  by (simp add: ascii_lower_def)

text \<open>
  Claim C5. For every tag list \<open>T\<close>, query \<open>q\<close> and limit, \<open>prefixMatch\<close> returns a
  subsequence of \<open>T\<close> of at most \<open>limit\<close> tags, each of them a tag of \<open>T\<close> whose
  lower-case form starts with the lower-case form of \<open>q\<close> without its leading \<open>#\<close>;
  the result is sorted when \<open>T\<close> is, for every order; and for \<open>q\<close> empty or just
  \<open>#\<close> the result is empty (the lower-case form of the empty string being empty).
\<close>

theorem prefixMatch_spec:
  "subseq (prefixMatch toLowerCase T q limit) T \<and>
   length (prefixMatch toLowerCase T q limit) \<le> limit \<and>
   (\<forall>t \<in> set (prefixMatch toLowerCase T q limit).
      t \<in> set T \<and> prefix (toLowerCase (strip_hash q)) (toLowerCase t)) \<and>
   (sorted_wrt R T \<longrightarrow> sorted_wrt R (prefixMatch toLowerCase T q limit)) \<and>
   (toLowerCase [] = [] \<longrightarrow>
      prefixMatch toLowerCase T [] limit = [] \<and> prefixMatch toLowerCase T (js ''#'') limit = [])"
proof -
  let ?p = "toLowerCase (strip_hash q)"
  let ?r = "prefixMatch toLowerCase T q limit"
  have r: "?r = (if ?p = [] then [] else take limit (filter (\<lambda>t. prefix ?p (toLowerCase t)) T))"
    by (simp add: prefixMatch_def Let_def)
  have sub: "subseq ?r T"
    unfolding r by (simp add: subseq_take_filter)
  have len: "length ?r \<le> limit"
    unfolding r by simp
  have mem: "\<forall>t \<in> set ?r. t \<in> set T \<and> prefix ?p (toLowerCase t)"
  proof
    fix t
    assume "t \<in> set ?r"
    then have "?p \<noteq> []" and "t \<in> set (take limit (filter (\<lambda>t. prefix ?p (toLowerCase t)) T))"
      unfolding r by (simp_all split: if_splits)
    from this(2) have "t \<in> set (filter (\<lambda>t. prefix ?p (toLowerCase t)) T)"
      by (rule in_set_takeD)
    then show "t \<in> set T \<and> prefix ?p (toLowerCase t)" by simp
  qed
  have srt: "sorted_wrt R T \<longrightarrow> sorted_wrt R ?r"
    unfolding r by (simp add: sorted_wrt_take_filter)
  have emp: "toLowerCase [] = [] \<longrightarrow>
      prefixMatch toLowerCase T [] limit = [] \<and> prefixMatch toLowerCase T (js ''#'') limit = []"
    by (simp add: prefixMatch_def strip_hash_def js_def)
  from sub len mem srt emp show ?thesis by blast
qed

text \<open>The query \<open>#Proj\<close> on three tags, and the query \<open>#\<close>.\<close>

theorem prefixMatch_spec_witness:
  "prefixMatch ascii_lower tags3 (js ''#Proj'') 60 = [js ''project'', js ''projecta''] \<and>
   prefix (ascii_lower (strip_hash (js ''#Proj''))) (ascii_lower (js ''projecta'')) \<and>
   subseq [js ''project'', js ''projecta''] tags3 \<and>
   prefixMatch ascii_lower tags3 (js ''#'') 60 = []"
proof -
  have v: "prefixMatch ascii_lower tags3 (js ''#Proj'') 60 = [js ''project'', js ''projecta'']"
    by (simp add: prefixMatch_def strip_hash_def ascii_lower_def tags3_def js_def)
  note th = prefixMatch_spec [of ascii_lower tags3 "js ''#Proj''" 60]
  from th have "subseq (prefixMatch ascii_lower tags3 (js ''#Proj'') 60) tags3" by blast
  with v have a: "subseq [js ''project'', js ''projecta''] tags3" by simp
  from th have "\<forall>t \<in> set (prefixMatch ascii_lower tags3 (js ''#Proj'') 60).
      prefix (ascii_lower (strip_hash (js ''#Proj''))) (ascii_lower t)" by blast
  with v have b: "prefix (ascii_lower (strip_hash (js ''#Proj''))) (ascii_lower (js ''projecta''))"
    by simp
  from th ascii_lower_Nil have c: "prefixMatch ascii_lower tags3 (js ''#'') 60 = []" by blast
  from v a b c show ?thesis by blast
qed

section \<open>Merging the tiers\<close>

lemma first_occurrences_append:
  "first_occurrences m (xs @ ys)
     = first_occurrences m xs @ first_occurrences (m @ first_occurrences m xs) ys"
  by (induction xs arbitrary: m) simp_all

lemma merge_tier_eq:
  "seen = set m \<Longrightarrow>
     merge_tier ts (seen, m) = (set (m @ first_occurrences m ts), m @ first_occurrences m ts)"
proof (induction ts arbitrary: seen m)
  case Nil
  then show ?case by simp
next
  case (Cons t ts)
  show ?case
  proof (cases "t \<in> set m")
    case True
    with Cons.IH [OF Cons.prems] Cons.prems show ?thesis by simp
  next
    case False
    have e: "m @ first_occurrences m (t # ts) = (m @ [t]) @ first_occurrences (m @ [t]) ts"
      using False by simp
    have "merge_tier (t # ts) (seen, m) = merge_tier ts (insert t seen, m @ [t])"
      using False Cons.prems by simp
    also have "\<dots> = (set ((m @ [t]) @ first_occurrences (m @ [t]) ts),
        (m @ [t]) @ first_occurrences (m @ [t]) ts)"
      by (rule Cons.IH) (simp add: Cons.prems)
    finally show ?thesis by (simp only: e)
  qed
qed

lemma merge_three_tiers:
  "snd (merge_tier subs (merge_tier suff (merge_tier pref ({}, []))))
     = first_occurrences [] (pref @ suff @ subs)"
proof -
  let ?a = "first_occurrences [] pref"
  let ?b = "?a @ first_occurrences ?a suff"
  have 1: "merge_tier pref ({}, []) = (set ?a, ?a)"
    using merge_tier_eq [of "{}" "[]" pref] by simp
  have 2: "merge_tier suff (set ?a, ?a) = (set ?b, ?b)"
    by (rule merge_tier_eq) simp
  have 3: "merge_tier subs (set ?b, ?b)
      = (set (?b @ first_occurrences ?b subs), ?b @ first_occurrences ?b subs)"
    by (rule merge_tier_eq) simp
  have "snd (merge_tier subs (merge_tier suff (merge_tier pref ({}, []))))
      = ?b @ first_occurrences ?b subs"
    by (simp only: 1 2 3 snd_conv)
  also have "\<dots> = first_occurrences [] (pref @ suff @ subs)"
    by (simp add: first_occurrences_append)
  finally show ?thesis .
qed

lemma merge_tier_capped_eq:
  "seen = set m \<Longrightarrow> length m < 12 \<Longrightarrow>
     merge_tier_capped ts (seen, m)
       = (set (take 12 (m @ first_occurrences m ts)), take 12 (m @ first_occurrences m ts))"
proof (induction ts arbitrary: seen m)
  case Nil
  then show ?case by simp
next
  case (Cons t ts)
  show ?case
  proof (cases "t \<in> set m")
    case True
    with Cons.IH [OF Cons.prems] Cons.prems show ?thesis by simp
  next
    case False
    have e: "m @ first_occurrences m (t # ts) = (m @ [t]) @ first_occurrences (m @ [t]) ts"
      using False by simp
    show ?thesis
    proof (cases "length (m @ [t]) \<ge> 12")
      case True
      with Cons.prems have "length (m @ [t]) = 12" by simp
      then have k: "take 12 ((m @ [t]) @ first_occurrences (m @ [t]) ts) = m @ [t]"
        by simp
      have "merge_tier_capped (t # ts) (seen, m) = (insert t seen, m @ [t])"
        using False True Cons.prems by simp
      also have "\<dots> = (set (m @ [t]), m @ [t])"
        using Cons.prems by simp
      finally show ?thesis by (simp only: e k)
    next
      case long: False
      then have l: "length (m @ [t]) < 12" by simp
      have "merge_tier_capped (t # ts) (seen, m) = merge_tier_capped ts (insert t seen, m @ [t])"
        using False long Cons.prems by simp
      also have "\<dots> = (set (take 12 ((m @ [t]) @ first_occurrences (m @ [t]) ts)),
          take 12 ((m @ [t]) @ first_occurrences (m @ [t]) ts))"
        by (rule Cons.IH [OF _ l]) (simp add: Cons.prems)
      finally show ?thesis by (simp only: e)
    qed
  qed
qed

lemma guarded_tier_eq:
  assumes "seen = set m" and "length m \<le> 12"
  shows "guarded_tier ts (seen, m)
       = (set (take 12 (m @ first_occurrences m ts)), take 12 (m @ first_occurrences m ts))"
proof (cases "length m < 12")
  case True
  with assms(1) show ?thesis by (simp only: guarded_tier_def snd_conv if_True merge_tier_capped_eq)
next
  case False
  with assms have "length m = 12" by simp
  with assms(1) show ?thesis by (simp add: guarded_tier_def)
qed

lemma take_cap_step:
  "take n (take n a @ first_occurrences (take n a) ys) = take n (a @ first_occurrences a ys)"
proof (cases "length a \<le> n")
  case True
  then show ?thesis by simp
next
  case False
  then show ?thesis by simp
qed

lemma suggest_three_tiers:
  "snd (guarded_tier subs (guarded_tier suff (merge_tier_capped pref ({}, []))))
     = take 12 (first_occurrences [] (pref @ suff @ subs))"
proof -
  let ?a = "first_occurrences [] pref"
  let ?b = "?a @ first_occurrences ?a suff"
  let ?c = "?b @ first_occurrences ?b subs"
  have 1: "merge_tier_capped pref ({}, []) = (set (take 12 ?a), take 12 ?a)"
    using merge_tier_capped_eq [of "{}" "[]" pref] by simp
  have "guarded_tier suff (set (take 12 ?a), take 12 ?a)
      = (set (take 12 (take 12 ?a @ first_occurrences (take 12 ?a) suff)),
         take 12 (take 12 ?a @ first_occurrences (take 12 ?a) suff))"
    by (rule guarded_tier_eq) simp_all
  then have 2: "guarded_tier suff (set (take 12 ?a), take 12 ?a) = (set (take 12 ?b), take 12 ?b)"
    by (simp only: take_cap_step)
  have "guarded_tier subs (set (take 12 ?b), take 12 ?b)
      = (set (take 12 (take 12 ?b @ first_occurrences (take 12 ?b) subs)),
         take 12 (take 12 ?b @ first_occurrences (take 12 ?b) subs))"
    by (rule guarded_tier_eq) simp_all
  then have 3: "guarded_tier subs (set (take 12 ?b), take 12 ?b) = (set (take 12 ?c), take 12 ?c)"
    by (simp only: take_cap_step)
  have "snd (guarded_tier subs (guarded_tier suff (merge_tier_capped pref ({}, []))))
      = take 12 ?c"
    by (simp only: 1 2 3 snd_conv)
  also have "?c = first_occurrences [] (pref @ suff @ subs)"
    by (simp add: first_occurrences_append)
  finally show ?thesis .
qed

text \<open>
  Claim C4. The merge of the program is \<open>mergeOrdered\<close>: the prefix tier, then the suffix
  tier, then the substring tier, a tag already emitted skipped, cut at the cap.
  \<open>getSuggestions\<close> merges what \<open>prefixMatch\<close>, \<open>suffixMatch\<close> and \<open>substringMatch\<close>
  return for the token without its \<open>#\<close>, each with the limit 100 and each only when its
  mode is on, with the cap 12, and puts a \<open>#\<close> before each tag. The line that
  \<open>buildFiltersFromInput\<close> writes for a part lists the merge of the same three matchers,
  with the limit 200, cut at 60. The loops themselves compute \<open>mergeOrdered\<close> on every
  three lists, and for distinct \<open>a\<close>, \<open>b\<close>, \<open>c\<close>, \<open>d\<close> the tiers \<open>[a,b]\<close>, \<open>[b,c]\<close>,
  \<open>[c,d,a]\<close> merge to \<open>[a,b,c,d]\<close>.
\<close>

theorem merge_is_mergeOrdered:
  "suggest_merged toLowerCase allTags modes token
     = (let base = (if startsWith_hash token then slice_from token 1 else token)
        in mergeOrdered
             (if enablePrefix modes then prefixMatch toLowerCase allTags base 100 else [])
             (if enableSuffix modes then suffixMatch toLowerCase allTags base 100 else [])
             (if enableSubstring modes then substringMatch toLowerCase allTags base 100 else [])
             12) \<and>
   getSuggestions toLowerCase allTags modes val sel
     = (let token = current_token val sel;
            base = (if startsWith_hash token then slice_from token 1 else token)
        in if token = [] then []
           else map (\<lambda>t. js ''#'' @ t)
                  (mergeOrdered
                     (if enablePrefix modes then prefixMatch toLowerCase allTags base 100 else [])
                     (if enableSuffix modes then suffixMatch toLowerCase allTags base 100 else [])
                     (if enableSubstring modes then substringMatch toLowerCase allTags base 100 else [])
                     12)) \<and>
   filter_line toLowerCase allTags modes part
     = (let base = (if startsWith_hash part then trim (slice_from part 1) else part)
        in js ''    - file.tags.containsAny(['' @
           join (js '', '')
             ((if base \<noteq> [] then [quoted base] else []) @
              map quoted
                (mergeOrdered
                   (if enablePrefix modes then prefixMatch toLowerCase allTags base 200 else [])
                   (if enableSuffix modes then suffixMatch toLowerCase allTags base 200 else [])
                   (if enableSubstring modes then substringMatch toLowerCase allTags base 200 else [])
                   60)) @
           js ''])'') \<and>
   snd (guarded_tier subs (guarded_tier suff (merge_tier_capped pref ({}, []))))
     = mergeOrdered pref suff subs 12 \<and>
   take 60 (snd (merge_tier subs (merge_tier suff (merge_tier pref ({}, [])))))
     = mergeOrdered pref suff subs 60 \<and>
   (distinct [a, b, c, d] \<longrightarrow>
      mergeOrdered [a, b] [b, c] [c, d, a] 12 = [a, b, c, d] \<and>
      snd (guarded_tier [c, d, a] (guarded_tier [b, c] (merge_tier_capped [a, b] ({}, []))))
        = [a, b, c, d] \<and>
      take 60 (snd (merge_tier [c, d, a] (merge_tier [b, c] (merge_tier [a, b] ({}, [])))))
        = [a, b, c, d])"
proof -
  have sm: "suggest_merged toLowerCase allTags modes token
     = (let base = (if startsWith_hash token then slice_from token 1 else token)
        in mergeOrdered
             (if enablePrefix modes then prefixMatch toLowerCase allTags base 100 else [])
             (if enableSuffix modes then suffixMatch toLowerCase allTags base 100 else [])
             (if enableSubstring modes then substringMatch toLowerCase allTags base 100 else [])
             12)"
    for token
    by (simp only: suggest_merged_def Let_def suggest_three_tiers mergeOrdered_def)
  have gs: "getSuggestions toLowerCase allTags modes val sel
     = (let token = current_token val sel;
            base = (if startsWith_hash token then slice_from token 1 else token)
        in if token = [] then []
           else map (\<lambda>t. js ''#'' @ t)
                  (mergeOrdered
                     (if enablePrefix modes then prefixMatch toLowerCase allTags base 100 else [])
                     (if enableSuffix modes then suffixMatch toLowerCase allTags base 100 else [])
                     (if enableSubstring modes then substringMatch toLowerCase allTags base 100 else [])
                     12))"
    by (simp only: getSuggestions_def sm Let_def)
  have fl: "filter_line toLowerCase allTags modes part
     = (let base = (if startsWith_hash part then trim (slice_from part 1) else part)
        in js ''    - file.tags.containsAny(['' @
           join (js '', '')
             ((if base \<noteq> [] then [quoted base] else []) @
              map quoted
                (mergeOrdered
                   (if enablePrefix modes then prefixMatch toLowerCase allTags base 200 else [])
                   (if enableSuffix modes then suffixMatch toLowerCase allTags base 200 else [])
                   (if enableSubstring modes then substringMatch toLowerCase allTags base 200 else [])
                   60)) @
           js ''])'')"
    by (simp only: filter_line_def Let_def merge_three_tiers mergeOrdered_def)
  have l12: "snd (guarded_tier subs (guarded_tier suff (merge_tier_capped pref ({}, []))))
     = mergeOrdered pref suff subs 12"
    by (simp only: suggest_three_tiers mergeOrdered_def)
  have l60: "take 60 (snd (merge_tier subs (merge_tier suff (merge_tier pref ({}, [])))))
     = mergeOrdered pref suff subs 60"
    by (simp only: merge_three_tiers mergeOrdered_def)
  have ex: "distinct [a, b, c, d] \<longrightarrow>
      mergeOrdered [a, b] [b, c] [c, d, a] 12 = [a, b, c, d] \<and>
      snd (guarded_tier [c, d, a] (guarded_tier [b, c] (merge_tier_capped [a, b] ({}, []))))
        = [a, b, c, d] \<and>
      take 60 (snd (merge_tier [c, d, a] (merge_tier [b, c] (merge_tier [a, b] ({}, [])))))
        = [a, b, c, d]"
  proof
    assume d: "distinct [a, b, c, d]"
    then have "first_occurrences [] ([a, b] @ [b, c] @ [c, d, a]) = [a, b, c, d]" by auto
    then show "mergeOrdered [a, b] [b, c] [c, d, a] 12 = [a, b, c, d] \<and>
      snd (guarded_tier [c, d, a] (guarded_tier [b, c] (merge_tier_capped [a, b] ({}, []))))
        = [a, b, c, d] \<and>
      take 60 (snd (merge_tier [c, d, a] (merge_tier [b, c] (merge_tier [a, b] ({}, [])))))
        = [a, b, c, d]"
      unfolding suggest_three_tiers merge_three_tiers mergeOrdered_def by simp
  qed
  show ?thesis
    by (intro conjI) (rule sm, rule gs, rule fl, rule l12, rule l60, rule ex)
qed

text \<open>
  The tags \<open>aab\<close>, \<open>ab\<close>, \<open>abz\<close> and the token \<open>#ab\<close>: the prefix tier is \<open>ab\<close>,
  \<open>abz\<close>, the suffix tier \<open>aab\<close>, \<open>ab\<close>, and the merge is \<open>ab\<close>, \<open>abz\<close>, \<open>aab\<close>, in the
  suggestions and in the filter line. Then the example of the claim with the tags \<open>a\<close>,
  \<open>b\<close>, \<open>c\<close>, \<open>d\<close>.
\<close>

theorem merge_is_mergeOrdered_witness:
  "suggest_merged ascii_lower tags_ab all_modes (js ''#ab'') = [js ''ab'', js ''abz'', js ''aab''] \<and>
   getSuggestions ascii_lower tags_ab all_modes (js ''x #ab'') None
     = [js ''#ab'', js ''#abz'', js ''#aab''] \<and>
   filter_line ascii_lower tags_ab all_modes (js ''#ab'')
     = js ''    - file.tags.containsAny([\"ab\", \"ab\", \"abz\", \"aab\"])'' \<and>
   distinct [js ''a'', js ''b'', js ''c'', js ''d''] \<and>
   mergeOrdered [js ''a'', js ''b''] [js ''b'', js ''c''] [js ''c'', js ''d'', js ''a''] 12
     = [js ''a'', js ''b'', js ''c'', js ''d''] \<and>
   snd (guarded_tier [js ''c'', js ''d'', js ''a'']
         (guarded_tier [js ''b'', js ''c''] (merge_tier_capped [js ''a'', js ''b''] ({}, []))))
     = [js ''a'', js ''b'', js ''c'', js ''d''] \<and>
   take 60 (snd (merge_tier [js ''c'', js ''d'', js ''a'']
         (merge_tier [js ''b'', js ''c''] (merge_tier [js ''a'', js ''b''] ({}, [])))))
     = [js ''a'', js ''b'', js ''c'', js ''d'']"
proof -
  note th = merge_is_mergeOrdered [where toLowerCase = ascii_lower and allTags = tags_ab
      and modes = all_modes and token = "js ''#ab''" and val = "js ''x #ab''" and sel = None
      and part = "js ''#ab''" and a = "js ''a''" and b = "js ''b''" and c = "js ''c''"
      and d = "js ''d''" and pref = "[js ''a'', js ''b'']" and suff = "[js ''b'', js ''c'']"
      and subs = "[js ''c'', js ''d'', js ''a'']"]
  have r1: "(let base = (if startsWith_hash (js ''#ab'') then slice_from (js ''#ab'') 1 else js ''#ab'')
        in mergeOrdered
             (if enablePrefix all_modes then prefixMatch ascii_lower tags_ab base 100 else [])
             (if enableSuffix all_modes then suffixMatch ascii_lower tags_ab base 100 else [])
             (if enableSubstring all_modes then substringMatch ascii_lower tags_ab base 100 else [])
             12) = [js ''ab'', js ''abz'', js ''aab'']"
    by code_simp
  have r2: "(let token = current_token (js ''x #ab'') None;
            base = (if startsWith_hash token then slice_from token 1 else token)
        in if token = [] then []
           else map (\<lambda>t. js ''#'' @ t)
                  (mergeOrdered
                     (if enablePrefix all_modes then prefixMatch ascii_lower tags_ab base 100 else [])
                     (if enableSuffix all_modes then suffixMatch ascii_lower tags_ab base 100 else [])
                     (if enableSubstring all_modes then substringMatch ascii_lower tags_ab base 100 else [])
                     12)) = [js ''#ab'', js ''#abz'', js ''#aab'']"
    by code_simp
  have r3: "(let base = (if startsWith_hash (js ''#ab'') then trim (slice_from (js ''#ab'') 1) else js ''#ab'')
        in js ''    - file.tags.containsAny(['' @
           join (js '', '')
             ((if base \<noteq> [] then [quoted base] else []) @
              map quoted
                (mergeOrdered
                   (if enablePrefix all_modes then prefixMatch ascii_lower tags_ab base 200 else [])
                   (if enableSuffix all_modes then suffixMatch ascii_lower tags_ab base 200 else [])
                   (if enableSubstring all_modes then substringMatch ascii_lower tags_ab base 200 else [])
                   60)) @
           js ''])'') = js ''    - file.tags.containsAny([\"ab\", \"ab\", \"abz\", \"aab\"])''"
    by code_simp
  from th r1 have a: "suggest_merged ascii_lower tags_ab all_modes (js ''#ab'')
      = [js ''ab'', js ''abz'', js ''aab'']"
    by (simp only:)
  from th r2 have b: "getSuggestions ascii_lower tags_ab all_modes (js ''x #ab'') None
      = [js ''#ab'', js ''#abz'', js ''#aab'']"
    by (simp only:)
  from th r3 have c: "filter_line ascii_lower tags_ab all_modes (js ''#ab'')
      = js ''    - file.tags.containsAny([\"ab\", \"ab\", \"abz\", \"aab\"])''"
    by (simp only:)
  have d: "distinct [js ''a'', js ''b'', js ''c'', js ''d'']" by (simp add: js_def)
  from th d have e: "mergeOrdered [js ''a'', js ''b''] [js ''b'', js ''c''] [js ''c'', js ''d'', js ''a''] 12
        = [js ''a'', js ''b'', js ''c'', js ''d''] \<and>
      snd (guarded_tier [js ''c'', js ''d'', js ''a'']
         (guarded_tier [js ''b'', js ''c''] (merge_tier_capped [js ''a'', js ''b''] ({}, []))))
        = [js ''a'', js ''b'', js ''c'', js ''d''] \<and>
      take 60 (snd (merge_tier [js ''c'', js ''d'', js ''a'']
         (merge_tier [js ''b'', js ''c''] (merge_tier [js ''a'', js ''b''] ({}, [])))))
        = [js ''a'', js ''b'', js ''c'', js ''d'']"
    by blast
  from a b c d e show ?thesis by blast
qed

section \<open>Suggestions\<close>

lemma length_suggest_merged: "length (suggest_merged toLowerCase allTags modes token) \<le> 12"
  unfolding suggest_merged_def Let_def suggest_three_tiers by simp

text \<open>
  Claim C6. \<open>getSuggestions\<close> returns at most 12 suggestions, for every tag list,
  value and selection, and none when the current token is empty.
\<close>

theorem getSuggestions_at_most_12:
  "length (getSuggestions toLowerCase allTags modes val sel) \<le> 12 \<and>
   (current_token val sel = [] \<longrightarrow> getSuggestions toLowerCase allTags modes val sel = [])"
  by (simp add: getSuggestions_def Let_def length_suggest_merged)

lemma getSuggestions_tags13:
  "getSuggestions ascii_lower tags13 all_modes (js ''x #T'') None
     = [js ''#ta'', js ''#tb'', js ''#tc'', js ''#td'', js ''#te'', js ''#tf'', js ''#tg'',
        js ''#th'', js ''#ti'', js ''#tj'', js ''#tk'', js ''#tl'']"
  by (simp add: getSuggestions_def current_token_def slice_def slice_from_def suggest_merged_def
      startsWith_hash_def prefixMatch_def suffixMatch_def substringMatch_def strip_hash_def
      guarded_tier_def ascii_lower_def tags13_def all_modes_def js_def Let_def)

text \<open>
  Thirteen tags that all match: twelve suggestions. With a space before the caret the
  token is empty and there is none.
\<close>

theorem getSuggestions_at_most_12_witness:
  "length (getSuggestions ascii_lower tags13 all_modes (js ''x #T'') None) \<le> 12 \<and>
   getSuggestions ascii_lower tags13 all_modes (js ''x #T'') None \<noteq> [] \<and>
   current_token (js ''x #T '') None = [] \<and>
   getSuggestions ascii_lower tags13 all_modes (js ''x #T '') None = []"
proof -
  have t: "current_token (js ''x #T '') None = []"
    by (simp add: current_token_def slice_def js_def)
  from getSuggestions_at_most_12 [of ascii_lower tags13 all_modes "js ''x #T''" None]
  have a: "length (getSuggestions ascii_lower tags13 all_modes (js ''x #T'') None) \<le> 12"
    by blast
  from getSuggestions_at_most_12 [of ascii_lower tags13 all_modes "js ''x #T ''" None] t
  have b: "getSuggestions ascii_lower tags13 all_modes (js ''x #T '') None = []"
    by blast
  have c: "getSuggestions ascii_lower tags13 all_modes (js ''x #T'') None \<noteq> []"
    by (simp add: getSuggestions_tags13)
  from a b c t show ?thesis by blast
qed

section \<open>The encoding\<close>

lemma of_nat_jschar: "n < 65536 \<Longrightarrow> unat (of_nat n :: jschar) = n"
  by (simp add: unat_of_nat)

lemma ws_not_unreserved: "is_ws c \<Longrightarrow> \<not> unreserved c \<and> \<not> is_lead c \<and> \<not> is_trail c"
  unfolding is_ws_def unreserved_def is_lead_def is_trail_def word_le_nat_alt
  by (elim disjE conjE) auto

lemma hex_digit_unreserved: "d < 16 \<Longrightarrow> unreserved (hex_digit d)"
  unfolding hex_digit_def unreserved_def word_le_nat_alt
  by (simp add: of_nat_jschar del: of_nat_add)

lemma utf8_bytes: "cp < 0x110000 \<Longrightarrow> \<forall>b \<in> set (utf8 cp). b < 256"
  unfolding utf8_def by (auto simp: less_Suc_eq_le)

lemma pct_chars: "b < 256 \<Longrightarrow> \<forall>x \<in> set (pct b). x = 0x25 \<or> unreserved x"
  unfolding pct_def by (simp add: hex_digit_unreserved)

lemma pct_utf8_chars:
  assumes "cp < 0x110000"
  shows "\<forall>x \<in> set (pct_utf8 cp). x = 0x25 \<or> unreserved x"
  using utf8_bytes [OF assms] pct_chars by (auto simp: pct_utf8_def)

lemma pair_cp_bound: "is_lead hi \<Longrightarrow> is_trail lo \<Longrightarrow> pair_cp hi lo < 0x110000"
proof -
  assume "is_lead hi" and "is_trail lo"
  then have hi: "unat hi - 0xD800 \<le> 0x3FF" and lo: "unat lo - 0xDC00 \<le> 0x3FF"
    unfolding is_lead_def is_trail_def word_le_nat_alt by auto
  from hi have "(unat hi - 0xD800) * 0x400 \<le> 0x3FF * 0x400"
    by (rule mult_le_mono1)
  with lo show ?thesis unfolding pair_cp_def by simp
qed

lemma unat_jschar_bound: "unat (c :: jschar) < 0x110000"
  using unsigned_less [of c, where ?'a = nat] by simp

lemma encodeURIComponent_chars:
  "encodeURIComponent s = Some r \<Longrightarrow> \<forall>x \<in> set r. x = 0x25 \<or> unreserved x"
proof (induction s arbitrary: r rule: encodeURIComponent.induct)
  case 1
  then show ?case by simp
next
  case (2 c cs)
  show ?case
  proof (cases "unreserved c")
    case True
    with "2.prems" obtain r' where "encodeURIComponent cs = Some r'" "r = c # r'"
      by auto
    with "2.IH"(1) [OF True] True show ?thesis by simp
  next
    case nu: False
    show ?thesis
    proof (cases "is_lead c")
      case True
      with nu "2.prems" obtain d ds r' where cs: "cs = d # ds" and d: "is_trail d"
        and r': "encodeURIComponent ds = Some r'" and r: "r = pct_utf8 (pair_cp c d) @ r'"
        by (auto split: list.splits if_splits)
      from "2.IH"(2) [OF nu True cs d r'] pct_utf8_chars [OF pair_cp_bound [OF True d]] r
      show ?thesis by auto
    next
      case nl: False
      with nu "2.prems" obtain r' where nt: "\<not> is_trail c"
        and r': "encodeURIComponent cs = Some r'" and r: "r = pct_utf8 (unat c) @ r'"
        by (auto split: if_splits)
      from "2.IH"(3) [OF nu nl nt r'] pct_utf8_chars [OF unat_jschar_bound [of c]] r
      show ?thesis by auto
    qed
  qed
qed

lemma encodeURIComponent_ws:
  "\<forall>c \<in> set s. is_ws c \<Longrightarrow> encodeURIComponent s = Some (concat (map (\<lambda>c. pct_utf8 (unat c)) s))"
  by (induction s) (simp_all add: ws_not_unreserved)

lemma trim_empty_iff: "trim s = [] \<longleftrightarrow> (\<forall>c \<in> set s. is_ws c)"
proof
  assume "trim s = []"
  then have "dropWhile is_ws (rev (dropWhile is_ws s)) = []" by (simp add: trim_def)
  then have all: "\<forall>c \<in> set (dropWhile is_ws s). is_ws c"
    by (simp add: dropWhile_eq_Nil_conv)
  have "dropWhile is_ws s = []"
  proof (cases "dropWhile is_ws s")
    case Nil
    then show ?thesis .
  next
    case (Cons a as)
    then have "\<not> is_ws a" by (metis hd_dropWhile list.sel(1) list.distinct(1))
    with all Cons show ?thesis by simp
  qed
  then show "\<forall>c \<in> set s. is_ws c" by (simp add: dropWhile_eq_Nil_conv)
next
  assume "\<forall>c \<in> set s. is_ws c"
  then show "trim s = []" by (auto simp: trim_def dest: set_dropWhileD)
qed

section \<open>Lines\<close>

lemma js_lines_from_no_newline: "0x0A \<notin> set a \<Longrightarrow> js_lines_from cur a = [cur @ a]"
  by (induction a arbitrary: cur) auto

lemma js_lines_from_line:
  "0x0A \<notin> set a \<Longrightarrow> js_lines_from cur (a @ 0x0A # rest) = (cur @ a) # js_lines_from [] rest"
  by (induction a arbitrary: cur) auto

lemma digit_char_is_digit: "d < 10 \<Longrightarrow> is_digit (digit_char d)"
  unfolding digit_char_def is_digit_def word_le_nat_alt
  by (simp add: of_nat_jschar del: of_nat_add)

lemma decimal_digits: "\<forall>x \<in> set (decimal n). is_digit x"
proof (induction n rule: decimal.induct)
  case (1 n)
  show ?case
  proof (cases "n < 10")
    case True
    then show ?thesis by (subst decimal.simps) (simp add: digit_char_is_digit)
  next
    case False
    with "1.IH" show ?thesis
      by (subst decimal.simps) (simp add: digit_char_is_digit)
  qed
qed

lemma digit_not_newline: "is_digit x \<Longrightarrow> x \<noteq> 0x0A"
  unfolding is_digit_def by auto

lemma enc_char_not_newline: "x = 0x25 \<or> unreserved x \<Longrightarrow> x \<noteq> 0x0A"
  unfolding unreserved_def by auto

text \<open>
  Claim C9. For an input whose trimmed form is empty, \<open>buildFiltersFromInput\<close> returns
  three lines: \<open>filters:\<close>, the \<open>INPUT\<close> line with the encoding of the input as
  \<open>encodeURIComponent\<close> gives it, and the \<open>CARET\<close> line with the caret, or \<open>0\<close>
  when there is none. No line is the \<open>and:\<close> line or a \<open>containsAny\<close> clause.
\<close>

theorem empty_input_filters:
  assumes "trim input = []"
  shows "buildFiltersFromInput toLowerCase input allTags caret modes
           = js ''filters:'' @ js ''\<newline>'' @ js ''# INPUT: '' @ encodeState input @ js ''\<newline>''
               @ js ''# CARET: '' @ decimal (case caret of Some c \<Rightarrow> c | None \<Rightarrow> 0) \<and>
         encodeURIComponent input = Some (encodeState input) \<and>
         js_lines (buildFiltersFromInput toLowerCase input allTags caret modes)
           = [js ''filters:'', js ''# INPUT: '' @ encodeState input,
              js ''# CARET: '' @ decimal (case caret of Some c \<Rightarrow> c | None \<Rightarrow> 0)] \<and>
         (\<forall>l \<in> set (js_lines (buildFiltersFromInput toLowerCase input allTags caret modes)).
            l \<noteq> js ''  and:'' \<and> \<not> is_clause_line l)"
proof -
  let ?n = "case caret of Some c \<Rightarrow> c | None \<Rightarrow> 0"
  let ?out = "buildFiltersFromInput toLowerCase input allTags caret modes"
  let ?l2 = "js ''# INPUT: '' @ encodeState input"
  let ?l3 = "js ''# CARET: '' @ decimal ?n"
  have out: "?out = js ''filters:'' @ js ''\<newline>'' @ ?l2 @ js ''\<newline>'' @ ?l3"
    using assms by (simp add: buildFiltersFromInput_def)
  from assms have ws: "\<forall>c \<in> set input. is_ws c" by (simp add: trim_empty_iff)
  from encodeURIComponent_ws [OF ws]
  have enc: "encodeURIComponent input = Some (encodeState input)"
    by (simp add: encodeState_def)
  from encodeURIComponent_chars [OF enc] enc_char_not_newline
  have n2: "0x0A \<notin> set ?l2" by (auto simp: js_def)
  from decimal_digits [of ?n] digit_not_newline
  have n3: "0x0A \<notin> set ?l3" by (auto simp: js_def)
  have n1: "0x0A \<notin> set (js ''filters:'')" by (simp add: js_def)
  have nl: "js ''\<newline>'' = [0x0A]" by (simp add: js_def)
  have "js_lines ?out = js_lines_from [] (js ''filters:'' @ 0x0A # ?l2 @ 0x0A # ?l3)"
    by (simp add: js_lines_def out nl)
  also have "\<dots> = js ''filters:'' # js_lines_from [] (?l2 @ 0x0A # ?l3)"
    using js_lines_from_line [OF n1, of "[]"] by simp
  also have "js_lines_from [] (?l2 @ 0x0A # ?l3) = ?l2 # js_lines_from [] ?l3"
    using js_lines_from_line [OF n2, of "[]"] by simp
  also have "js_lines_from [] ?l3 = [?l3]"
    using js_lines_from_no_newline [OF n3, of "[]"] by simp
  finally have lines: "js_lines ?out = [js ''filters:'', ?l2, ?l3]" .
  have no: "\<forall>l \<in> set [js ''filters:'', ?l2, ?l3]. l \<noteq> js ''  and:'' \<and> \<not> is_clause_line l"
    by (simp add: is_clause_line_def js_def)
  from lines no
  have no': "\<forall>l \<in> set (js_lines ?out). l \<noteq> js ''  and:'' \<and> \<not> is_clause_line l"
    by (simp only:)
  have out': "?out = js ''filters:'' @ js ''\<newline>'' @ js ''# INPUT: '' @ encodeState input
      @ js ''\<newline>'' @ js ''# CARET: '' @ decimal ?n"
    using out by simp
  show ?thesis
    by (intro conjI) (rule out', rule enc, rule lines, rule no')
qed

text \<open>An input of two spaces.\<close>

theorem empty_input_filters_witness:
  "trim (js ''  '') = [] \<and>
   buildFiltersFromInput ascii_lower (js ''  '') [js ''project''] (Some 2)
       \<lparr>enablePrefix = True, enableSuffix = True, enableSubstring = True, refreshDelayMs = 1000\<rparr>
     = js ''filters:\<newline># INPUT: %20%20\<newline># CARET: 2''"
proof -
  have t: "trim (js ''  '') = []" by (simp add: trim_def is_ws_def js_def)
  have e: "encodeState (js ''  '') = js ''%20%20''"
    by (simp add: encodeState_def unreserved_def is_lead_def is_trail_def pct_utf8_def utf8_def
        pct_def hex_digit_def js_def)
  have d: "decimal 2 = js ''2''" by (simp add: decimal.simps digit_char_def js_def)
  from empty_input_filters [OF t, of ascii_lower "[js ''project'']" "Some 2"
      "\<lparr>enablePrefix = True, enableSuffix = True, enableSubstring = True, refreshDelayMs = 1000\<rparr>"]
  have "buildFiltersFromInput ascii_lower (js ''  '') [js ''project''] (Some 2)
       \<lparr>enablePrefix = True, enableSuffix = True, enableSubstring = True, refreshDelayMs = 1000\<rparr>
     = js ''filters:'' @ js ''\<newline>'' @ js ''# INPUT: '' @ encodeState (js ''  '') @ js ''\<newline>''
               @ js ''# CARET: '' @ decimal 2"
    by simp
  then have "buildFiltersFromInput ascii_lower (js ''  '') [js ''project''] (Some 2)
       \<lparr>enablePrefix = True, enableSuffix = True, enableSubstring = True, refreshDelayMs = 1000\<rparr>
     = js ''filters:'' @ js ''\<newline>'' @ js ''# INPUT: '' @ js ''%20%20'' @ js ''\<newline>''
               @ js ''# CARET: '' @ js ''2''"
    by (simp only: e d)
  also have "\<dots> = js ''filters:\<newline># INPUT: %20%20\<newline># CARET: 2''"
    by (simp add: js_def)
  finally show ?thesis using t by blast
qed

section \<open>Tokens\<close>

lemma takeWhile_append_none: "\<forall>c \<in> set w. \<not> P c \<Longrightarrow> takeWhile P (cs @ w) = takeWhile P cs"
proof (induction cs)
  case Nil
  then show ?case by (cases w) simp_all
next
  case (Cons c cs)
  then show ?case by simp
qed

lemma dropWhile_append_none: "\<forall>c \<in> set w. \<not> P c \<Longrightarrow> dropWhile P (cs @ w) = dropWhile P cs @ w"
proof (induction cs)
  case Nil
  then show ?case by (cases w) simp_all
next
  case (Cons c cs)
  then show ?case by simp
qed

lemma ws_tokens_dropWhile: "ws_tokens (dropWhile is_ws s) = ws_tokens s"
  by (induction s) simp_all

lemma ws_tokens_all_ws: "\<forall>c \<in> set w. is_ws c \<Longrightarrow> ws_tokens w = []"
  by (induction w) simp_all

lemma ws_tokens_append_ws:
  assumes "\<forall>c \<in> set w. is_ws c"
  shows "ws_tokens (t @ w) = ws_tokens t"
proof (induction t rule: ws_tokens.induct)
  case 1
  from assms show ?case by (simp add: ws_tokens_all_ws)
next
  case (2 c cs)
  show ?case
  proof (cases "is_ws c")
    case True
    with "2.IH"(1) show ?thesis by simp
  next
    case False
    from assms have w: "\<forall>x \<in> set w. \<not> \<not> is_ws x" by simp
    have tw: "takeWhile (\<lambda>x. \<not> is_ws x) (cs @ w) = takeWhile (\<lambda>x. \<not> is_ws x) cs"
      by (rule takeWhile_append_none [OF w])
    have dw: "dropWhile (\<lambda>x. \<not> is_ws x) (cs @ w) = dropWhile (\<lambda>x. \<not> is_ws x) cs @ w"
      by (rule dropWhile_append_none [OF w])
    from False "2.IH"(2) [OF False] tw dw show ?thesis by simp
  qed
qed

lemma ws_tokens_trim: "ws_tokens (trim s) = ws_tokens s"
proof -
  let ?u = "dropWhile is_ws s"
  let ?k = "rev (dropWhile is_ws (rev ?u))"
  let ?w = "rev (takeWhile is_ws (rev ?u))"
  have "rev ?u = takeWhile is_ws (rev ?u) @ dropWhile is_ws (rev ?u)" by simp
  then have "rev (rev ?u) = rev (takeWhile is_ws (rev ?u) @ dropWhile is_ws (rev ?u))"
    by (rule arg_cong)
  then have u: "?u = ?k @ ?w" by (simp only: rev_rev_ident rev_append)
  have w: "\<forall>c \<in> set ?w. is_ws c" by (auto dest: set_takeWhileD)
  have "ws_tokens (trim s) = ws_tokens ?k" by (simp add: trim_def)
  also have "\<dots> = ws_tokens (?k @ ?w)" by (rule ws_tokens_append_ws [OF w, symmetric])
  also have "\<dots> = ws_tokens ?u" using u by simp
  also have "\<dots> = ws_tokens s" by (rule ws_tokens_dropWhile)
  finally show ?thesis .
qed

lemma split_ws_tokens:
  "filter (\<lambda>p. p \<noteq> []) (split_ws cur s)
     = (if cur = [] then ws_tokens s
        else (cur @ takeWhile (\<lambda>x. \<not> is_ws x) s) # ws_tokens (dropWhile (\<lambda>x. \<not> is_ws x) s))"
proof (induction cur s rule: split_ws.induct)
  case (1 cur)
  show ?case by simp
next
  case (2 cur c cs)
  show ?case
  proof (cases "is_ws c")
    case True
    with "2.IH"(1) show ?thesis by (simp add: ws_tokens_dropWhile)
  next
    case False
    with "2.IH"(2) show ?thesis by simp
  qed
qed

lemma ws_tokens_parts: "\<forall>p \<in> set (ws_tokens s). p \<noteq> [] \<and> (\<forall>c \<in> set p. \<not> is_ws c)"
proof (induction s rule: ws_tokens.induct)
  case 1
  show ?case by simp
next
  case (2 c cs)
  show ?case
  proof (cases "is_ws c")
    case True
    with "2.IH"(1) show ?thesis by simp
  next
    case False
    have tw: "\<forall>x \<in> set (takeWhile (\<lambda>x. \<not> is_ws x) cs). \<not> is_ws x"
      using set_takeWhileD by fastforce
    have e: "ws_tokens (c # cs)
        = (c # takeWhile (\<lambda>x. \<not> is_ws x) cs) # ws_tokens (dropWhile (\<lambda>x. \<not> is_ws x) cs)"
      using False by simp
    note ih = "2.IH"(2) [OF False]
    show ?thesis
    proof
      fix p
      assume "p \<in> set (ws_tokens (c # cs))"
      then have "p = c # takeWhile (\<lambda>x. \<not> is_ws x) cs
          \<or> p \<in> set (ws_tokens (dropWhile (\<lambda>x. \<not> is_ws x) cs))"
        unfolding e by simp
      then show "p \<noteq> [] \<and> (\<forall>c \<in> set p. \<not> is_ws c)"
      proof
        assume "p = c # takeWhile (\<lambda>x. \<not> is_ws x) cs"
        with False tw show ?thesis by simp
      next
        assume "p \<in> set (ws_tokens (dropWhile (\<lambda>x. \<not> is_ws x) cs))"
        with ih show ?thesis by blast
      qed
    qed
  qed
qed

lemma ws_tokens_nonempty: "\<exists>c \<in> set s. \<not> is_ws c \<Longrightarrow> ws_tokens s \<noteq> []"
  by (induction s) auto

lemma trim_no_ws: "\<forall>c \<in> set t. \<not> is_ws c \<Longrightarrow> trim t = t"
proof -
  assume a: "\<forall>c \<in> set t. \<not> is_ws c"
  then have 1: "dropWhile is_ws t = t" by (cases t) simp_all
  from a have "\<forall>c \<in> set (rev t). \<not> is_ws c" by simp
  then have 2: "dropWhile is_ws (rev t) = rev t" by (cases "rev t") simp_all
  show "trim t = t" by (simp add: trim_def 1 2)
qed

section \<open>Clauses\<close>

lemma set_first_occurrences: "set (first_occurrences m xs) = set xs - set m"
  by (induction xs arbitrary: m) auto

lemma length_mergeOrdered: "length (mergeOrdered a b c cap) \<le> cap"
  by (simp add: mergeOrdered_def)

lemma set_mergeOrdered: "set (mergeOrdered a b c cap) \<subseteq> set a \<union> set b \<union> set c"
proof -
  have "set (mergeOrdered a b c cap) \<subseteq> set (first_occurrences [] (a @ b @ c))"
    unfolding mergeOrdered_def by (rule set_take_subset)
  then show ?thesis by (auto simp: set_first_occurrences)
qed

lemma matchers_subset:
  "set (prefixMatch f all q n) \<subseteq> set all"
  "set (suffixMatch f all q n) \<subseteq> set all"
  "set (substringMatch f all q n) \<subseteq> set all"
  by (auto simp: prefixMatch_def suffixMatch_def substringMatch_def Let_def dest: in_set_takeD)

lemma clause_tags_bounds:
  "length (clause_tags f allTags modes base) \<le> 60 \<and> set (clause_tags f allTags modes base) \<subseteq> set allTags"
proof -
  have "length (clause_tags f allTags modes base) \<le> 60"
    unfolding clause_tags_def by (rule length_mergeOrdered)
  moreover have "set (clause_tags f allTags modes base) \<subseteq> set allTags"
    using set_mergeOrdered [of
        "if enablePrefix modes then prefixMatch f allTags base 200 else []"
        "if enableSuffix modes then suffixMatch f allTags base 200 else []"
        "if enableSubstring modes then substringMatch f allTags base 200 else []" 60]
      matchers_subset [of f allTags base 200]
    unfolding clause_tags_def by (auto split: if_splits)
  ultimately show ?thesis by blast
qed

lemma base_of_part:
  assumes "\<forall>c \<in> set part. \<not> is_ws c"
  shows "(if startsWith_hash part then trim (slice_from part 1) else part) = strip_hash part"
proof (cases part)
  case Nil
  then show ?thesis by (simp add: startsWith_hash_def strip_hash_def js_def)
next
  case (Cons c cs)
  with assms have "\<forall>x \<in> set cs. \<not> is_ws x" by simp
  then have "trim cs = cs" by (rule trim_no_ws)
  with Cons show ?thesis
    by (simp add: startsWith_hash_def strip_hash_def slice_from_def js_def)
qed

lemma filter_line_clause:
  assumes "\<forall>c \<in> set part. \<not> is_ws c"
  shows "filter_line f allTags modes part = clause_of_token f allTags modes part"
proof -
  let ?base = "strip_hash part"
  let ?pref = "if enablePrefix modes then prefixMatch f allTags ?base 200 else []"
  let ?suff = "if enableSuffix modes then suffixMatch f allTags ?base 200 else []"
  let ?subs = "if enableSubstring modes then substringMatch f allTags ?base 200 else []"
  have m: "take 60 (snd (merge_tier ?subs (merge_tier ?suff (merge_tier ?pref ({}, [])))))
      = clause_tags f allTags modes ?base"
    by (simp only: merge_three_tiers clause_tags_def mergeOrdered_def)
  have c1: "(if ?base \<noteq> [] then [quoted ?base] else []) = (if ?base = [] then [] else [quoted ?base])"
    by simp
  have "filter_line f allTags modes part
      = js ''    - file.tags.containsAny(['' @
        join (js '', '')
          ((if ?base \<noteq> [] then [quoted ?base] else []) @
           map quoted (take 60 (snd (merge_tier ?subs (merge_tier ?suff (merge_tier ?pref ({}, []))))))) @
        js ''])''"
    by (simp only: filter_line_def Let_def base_of_part [OF assms])
  also have "\<dots> = clause_of_token f allTags modes part"
    by (simp only: m c1 clause_of_token_def)
  finally show ?thesis .
qed

text \<open>
  Claim C10, amended. For an input whose trimmed form is not empty, the body is the line
  \<open>filters:\<close>, one line \<open>and:\<close>, one clause for each token of the input (its maximal
  runs of code units that are not white space) and the two state lines. The clause of a
  token lists the token without its leading \<open>#\<close>, quotes escaped, unless that is empty,
  and then the merged tags: the tiers of the three matchers, each called with the limit
  200, merged and cut at 60, all of them tags of the tag list.
\<close>

theorem filters_one_clause_per_token:
  assumes "trim input \<noteq> []"
  shows "buildFiltersFromInput toLowerCase input allTags caret modes
           = join (js ''\<newline>'')
               ([js ''filters:'', js ''  and:''] @
                map (clause_of_token toLowerCase allTags modes) (ws_tokens input) @
                [js ''# INPUT: '' @ encodeState input,
                 js ''# CARET: '' @ decimal (case caret of Some c \<Rightarrow> c | None \<Rightarrow> length input)]) \<and>
         ws_tokens input \<noteq> [] \<and>
         (\<forall>p \<in> set (ws_tokens input).
            p \<noteq> [] \<and> (\<forall>c \<in> set p. \<not> is_ws c) \<and>
            length (clause_tags toLowerCase allTags modes (strip_hash p)) \<le> 60 \<and>
            set (clause_tags toLowerCase allTags modes (strip_hash p)) \<subseteq> set allTags)"
proof -
  have parts: "filter (\<lambda>p. p \<noteq> []) (split_ws [] (trim input)) = ws_tokens input"
    by (simp add: split_ws_tokens ws_tokens_trim)
  have lines: "map (filter_line toLowerCase allTags modes) (ws_tokens input)
      = map (clause_of_token toLowerCase allTags modes) (ws_tokens input)"
  proof (rule map_cong [OF refl])
    fix p
    assume "p \<in> set (ws_tokens input)"
    with ws_tokens_parts [of input] have "\<forall>c \<in> set p. \<not> is_ws c" by blast
    then show "filter_line toLowerCase allTags modes p = clause_of_token toLowerCase allTags modes p"
      by (rule filter_line_clause)
  qed
  from assms have l: "length (trim input) \<noteq> 0" by simp
  have out: "buildFiltersFromInput toLowerCase input allTags caret modes
           = join (js ''\<newline>'')
               ([js ''filters:'', js ''  and:''] @
                map (clause_of_token toLowerCase allTags modes) (ws_tokens input) @
                [js ''# INPUT: '' @ encodeState input,
                 js ''# CARET: '' @ decimal (case caret of Some c \<Rightarrow> c | None \<Rightarrow> length input)])"
    unfolding buildFiltersFromInput_def Let_def
    by (simp only: l if_False parts lines)
  from assms have "\<exists>c \<in> set input. \<not> is_ws c" by (simp add: trim_empty_iff)
  then have ne: "ws_tokens input \<noteq> []" by (rule ws_tokens_nonempty)
  have each: "\<forall>p \<in> set (ws_tokens input).
            p \<noteq> [] \<and> (\<forall>c \<in> set p. \<not> is_ws c) \<and>
            length (clause_tags toLowerCase allTags modes (strip_hash p)) \<le> 60 \<and>
            set (clause_tags toLowerCase allTags modes (strip_hash p)) \<subseteq> set allTags"
    using ws_tokens_parts [of input] clause_tags_bounds by blast
  show ?thesis
    by (intro conjI) (rule out, rule ne, rule each)
qed

text \<open>
  Claim C10 as stated fails for the token \<open>#\<close>: without its \<open>#\<close> it is empty, the
  guard \<open>if (base)\<close> leaves it out, and the clause lists nothing, where the claim has the
  clause list the token.
\<close>

theorem hash_token_not_listed:
  "buildFiltersFromInput ascii_lower (js ''#'') tags3 (Some 1) all_modes
     = js ''filters:\<newline>  and:\<newline>    - file.tags.containsAny([])\<newline># INPUT: %23\<newline># CARET: 1'' \<and>
   filter_line ascii_lower tags3 all_modes (js ''#'') = js ''    - file.tags.containsAny([])'' \<and>
   claimed_clause ascii_lower tags3 all_modes (js ''#'') = js ''    - file.tags.containsAny([\"\"])'' \<and>
   filter_line ascii_lower tags3 all_modes (js ''#'') \<noteq> claimed_clause ascii_lower tags3 all_modes (js ''#'')"
proof -
  have a: "buildFiltersFromInput ascii_lower (js ''#'') tags3 (Some 1) all_modes
     = js ''filters:\<newline>  and:\<newline>    - file.tags.containsAny([])\<newline># INPUT: %23\<newline># CARET: 1''"
    by code_simp
  have b: "filter_line ascii_lower tags3 all_modes (js ''#'') = js ''    - file.tags.containsAny([])''"
    by code_simp
  have c: "claimed_clause ascii_lower tags3 all_modes (js ''#'') = js ''    - file.tags.containsAny([\"\"])''"
    by code_simp
  have d: "js ''    - file.tags.containsAny([])'' \<noteq> js ''    - file.tags.containsAny([\"\"])''"
    by code_simp
  from a b c d show ?thesis by (simp only:) simp
qed

text \<open>The input \<open>#Proj  x\<close>, with two spaces, on three tags.\<close>

theorem filters_one_clause_per_token_witness:
  "trim (js ''#Proj  x'') \<noteq> [] \<and>
   ws_tokens (js ''#Proj  x'') = [js ''#Proj'', js ''x''] \<and>
   buildFiltersFromInput ascii_lower (js ''#Proj  x'') tags3 None all_modes
     = js ''filters:\<newline>  and:\<newline>    - file.tags.containsAny([\"Proj\", \"project\", \"projecta\"])\<newline>    - file.tags.containsAny([\"x\"])\<newline># INPUT: %23Proj%20%20x\<newline># CARET: 8''"
proof -
  have t: "trim (js ''#Proj  x'') \<noteq> []" by code_simp
  have w: "ws_tokens (js ''#Proj  x'') = [js ''#Proj'', js ''x'']"
    by code_simp
  have c1: "clause_of_token ascii_lower tags3 all_modes (js ''#Proj'')
      = js ''    - file.tags.containsAny([\"Proj\", \"project\", \"projecta\"])''"
    by code_simp
  have c2: "clause_of_token ascii_lower tags3 all_modes (js ''x'')
      = js ''    - file.tags.containsAny([\"x\"])''"
    by code_simp
  have e: "encodeState (js ''#Proj  x'') = js ''%23Proj%20%20x''"
    by code_simp
  have d: "decimal (length (js ''#Proj  x'')) = js ''8''"
    by code_simp
  from filters_one_clause_per_token [OF t, of ascii_lower tags3 None all_modes]
  have "buildFiltersFromInput ascii_lower (js ''#Proj  x'') tags3 None all_modes
      = join (js ''\<newline>'')
          ([js ''filters:'', js ''  and:''] @
           map (clause_of_token ascii_lower tags3 all_modes) (ws_tokens (js ''#Proj  x'')) @
           [js ''# INPUT: '' @ encodeState (js ''#Proj  x''),
            js ''# CARET: '' @ decimal (length (js ''#Proj  x''))])"
    by simp
  also have "\<dots> = js ''filters:\<newline>  and:\<newline>    - file.tags.containsAny([\"Proj\", \"project\", \"projecta\"])\<newline>    - file.tags.containsAny([\"x\"])\<newline># INPUT: %23Proj%20%20x\<newline># CARET: 8''"
    unfolding w e d by (simp add: c1 c2) (simp add: js_def)
  finally show ?thesis using t w by blast
qed

section \<open>Restoring the saved state\<close>

text \<open>
  An input with a \<open>#\<close>, a space and a newline, written into the region and read back:
  the state returns as it was.
\<close>

lemma extractSavedState_doc_typed:
  "extractSavedState doc_typed = Some \<lparr>saved_input = js ''#proj a\<newline>b'', saved_caret = 3\<rparr>"
  by code_simp

text \<open>
  Claim C3 at the empty input with the caret at 0. The body written is \<open>filters:\<close>,
  \<open># INPUT: \<close> and \<open># CARET: 0\<close>. Reading it back, the \<open>\s*\<close> after \<open>INPUT:\<close>
  runs over the space and the newline, the group takes the next line, and the state
  restored has the input \<open># CARET: 0\<close>, not the empty input.
\<close>

theorem cleared_input_not_restored:
  "doc_cleared = js ''notes\<newline>```base\<newline># BEGIN FILTERS (managed by obsidian-base-live-filter-plugin)\<newline>filters:\<newline># INPUT: \<newline># CARET: 0\<newline># END FILTERS\<newline>views:\<newline>```\<newline>tail'' \<and>
   match_lines rx_INPUT True (js ''# INPUT: \<newline># CARET: 0\<newline># END FILTERS'') = Some (js ''# CARET: 0'') \<and>
   extractSavedState doc_cleared = Some \<lparr>saved_input = js ''# CARET: 0'', saved_caret = 0\<rparr> \<and>
   extractSavedState doc_cleared \<noteq> Some \<lparr>saved_input = js '''', saved_caret = 0\<rparr>"
  by code_simp

section \<open>Debouncing\<close>















end
